theory Spec2Isabelle
  imports Complex_Main
begin

section \<open>Router types (src/router/types.ts)\<close>

text \<open>
  JavaScript numbers are read as real numbers. The rounding of the double format is
  written out in \<open>calibrateConfidence\<close>, where the result depends on it; infinities and
  NaN are outside this development. Strings are sequences of UTF-16 code
  units; the development covers the code units below 256 (ASCII and Latin-1), which
  is what an Isabelle \<open>char\<close> holds.
\<close>

datatype Tier = SIMPLE | MEDIUM | COMPLEX | REASONING

datatype Method = Rules | Llm

text \<open>
  A template literal is kept as the list of its parts, so that a number placed in a
  string stays a number (its decimal rendering is not modelled).
\<close>

datatype part = Str string | Num real

type_synonym template = "part list"

record RoutingDecision =
  model :: string
  tier :: Tier
  confidence :: real
  rd_method :: Method
  reasoning :: template
  costEstimate :: real
  baselineCost :: real
  savings :: real

record TierConfig =
  primary :: string
  fallback :: "string list"

text \<open>\<open>Record<Tier, TierConfig>\<close>: one entry for each of the four tiers.\<close>

type_synonym TierConfigs = "Tier \<Rightarrow> TierConfig"

section \<open>Tier to model selection (src/router/selector.ts)\<close>

record ModelPricing =
  inputPrice :: real
  outputPrice :: real

type_synonym PricingMap = "string \<rightharpoonup> ModelPricing"

definition selectModel ::
  "Tier \<Rightarrow> real \<Rightarrow> Method \<Rightarrow> template \<Rightarrow> TierConfigs \<Rightarrow> PricingMap \<Rightarrow> real \<Rightarrow> real
    \<Rightarrow> RoutingDecision" where
  "selectModel t conf meth reason tierConfigs modelPricing estimatedInputTokens maxOutputTokens =
    (let tierConfig = tierConfigs t;
         m = primary tierConfig;
         pricing = modelPricing m;
         inputCost = (case pricing of
                        Some p \<Rightarrow> (estimatedInputTokens / 1000000) * inputPrice p
                      | None \<Rightarrow> 0);
         outputCost = (case pricing of
                         Some p \<Rightarrow> (maxOutputTokens / 1000000) * outputPrice p
                       | None \<Rightarrow> 0);
         cost = inputCost + outputCost;
         opusPricing = modelPricing ''anthropic/claude-opus-4.6'';
         baselineInput = (case opusPricing of
                            Some p \<Rightarrow> (estimatedInputTokens / 1000000) * inputPrice p
                          | None \<Rightarrow> 0);
         baselineOutput = (case opusPricing of
                             Some p \<Rightarrow> (maxOutputTokens / 1000000) * outputPrice p
                           | None \<Rightarrow> 0);
         baseline = baselineInput + baselineOutput;
         sav = (if baseline > 0 then max 0 ((baseline - cost) / baseline) else 0)
     in \<lparr> model = m, tier = t, confidence = conf, rd_method = meth, reasoning = reason,
          costEstimate = cost, baselineCost = baseline, savings = sav \<rparr>)"

text \<open>The cost formula of the specification, for one pricing entry.\<close>

definition priceOf :: "ModelPricing option \<Rightarrow> real \<Rightarrow> real \<Rightarrow> real" where
  "priceOf pricing inTok outTok =
    (case pricing of
       None \<Rightarrow> 0
     | Some p \<Rightarrow> (inTok / 1000000) * inputPrice p + (outTok / 1000000) * outputPrice p)"

definition nonnegPrices :: "ModelPricing option \<Rightarrow> bool" where
  "nonnegPrices pricing =
    (case pricing of None \<Rightarrow> True | Some p \<Rightarrow> 0 \<le> inputPrice p \<and> 0 \<le> outputPrice p)"

section \<open>JavaScript string and regular-expression primitives\<close>

text \<open>
  The built-ins the router and the proxy call, on code units below 256.
  \<open>String.prototype.toLowerCase\<close> maps A-Z and the Latin-1 capitals
  (0xC0-0xDE without 0xD7) to the letter 32 places further on.
\<close>

definition toLowerChar :: "char \<Rightarrow> char" where
  "toLowerChar c =
    (let n = (of_char c :: nat)
     in if (65 \<le> n \<and> n \<le> 90) \<or> (192 \<le> n \<and> n \<le> 214) \<or> (216 \<le> n \<and> n \<le> 222)
        then char_of (n + 32) else c)"

definition toLowerCase :: "string \<Rightarrow> string" where
  "toLowerCase s = map toLowerChar s"

text \<open>\<open>s.startsWith(p)\<close> and \<open>s.includes(p)\<close>.\<close>

fun startsWith :: "string \<Rightarrow> string \<Rightarrow> bool" where
  "startsWith s [] = True"
| "startsWith [] (p # ps) = False"
| "startsWith (c # cs) (p # ps) = (c = p \<and> startsWith cs ps)"

fun includesStr :: "string \<Rightarrow> string \<Rightarrow> bool" where
  "includesStr [] kw = (kw = [])"
| "includesStr (c # cs) kw = (startsWith (c # cs) kw \<or> includesStr cs kw)"

text \<open>\<open>xs.join(sep)\<close> on strings.\<close>

fun join :: "string \<Rightarrow> string list \<Rightarrow> string" where
  "join sep [] = []"
| "join sep [x] = x"
| "join sep (x # y # ys) = x @ sep @ join sep (y # ys)"

text \<open>Character classes of the regular expressions: \<open>\d\<close>, \<open>\w\<close>, \<open>\s\<close>, and
  the line terminators that \<open>.\<close> does not match.\<close>

definition isDigit :: "char \<Rightarrow> bool" where
  "isDigit c = (let n = (of_char c :: nat) in 48 \<le> n \<and> n \<le> 57)"

definition isWordChar :: "char \<Rightarrow> bool" where
  "isWordChar c =
    (let n = (of_char c :: nat)
     in (48 \<le> n \<and> n \<le> 57) \<or> (65 \<le> n \<and> n \<le> 90) \<or> n = 95 \<or> (97 \<le> n \<and> n \<le> 122))"

definition isSpace :: "char \<Rightarrow> bool" where
  "isSpace c = (let n = (of_char c :: nat) in (9 \<le> n \<and> n \<le> 13) \<or> n = 32 \<or> n = 160)"

definition isLineTerminator :: "char \<Rightarrow> bool" where
  "isLineTerminator c = (let n = (of_char c :: nat) in n = 10 \<or> n = 13)"

text \<open>The flag \<open>i\<close>: an ASCII letter of the pattern matches both of its cases, and
  no code unit from 128 on matches an ASCII letter.\<close>

definition asciiUpper :: "char \<Rightarrow> char" where
  "asciiUpper c =
    (let n = (of_char c :: nat) in if 97 \<le> n \<and> n \<le> 122 then char_of (n - 32) else c)"

definition eqIgnoreCase :: "char \<Rightarrow> char \<Rightarrow> bool" where
  "eqIgnoreCase p c = (asciiUpper p = asciiUpper c)"

text \<open>Match the literal \<open>p\<close> at the head of the input, ignoring case; the result is
  the input that follows the match.\<close>

fun stripPrefixCI :: "string \<Rightarrow> string \<Rightarrow> string option" where
  "stripPrefixCI [] s = Some s"
| "stripPrefixCI (p # ps) [] = None"
| "stripPrefixCI (p # ps) (c # cs) = (if eqIgnoreCase p c then stripPrefixCI ps cs else None)"

text \<open>The assertion \<open>\b\<close> between the code unit before the position (if any) and
  the rest of the input.\<close>

definition isWordOpt :: "char option \<Rightarrow> bool" where
  "isWordOpt c = (case c of None \<Rightarrow> False | Some x \<Rightarrow> isWordChar x)"

definition headOpt :: "string \<Rightarrow> char option" where
  "headOpt s = (case s of [] \<Rightarrow> None | c # _ \<Rightarrow> Some c)"

definition wordBoundary :: "char option \<Rightarrow> string \<Rightarrow> bool" where
  "wordBoundary prev s = (isWordOpt prev \<noteq> isWordOpt (headOpt s))"

text \<open>The code unit before the position reached after \<open>n\<close> more code units of \<open>s\<close>.\<close>

definition prevAfter :: "char option \<Rightarrow> string \<Rightarrow> nat \<Rightarrow> char option" where
  "prevAfter prev s n = (if n = 0 \<or> length s < n then prev else Some (s ! (n - 1)))"

text \<open>An unanchored search tries every start position from left to right; \<open>.*\<close>
  followed by \<open>P\<close> tries every later position up to the next line terminator.\<close>

fun anywhere :: "(char option \<Rightarrow> string \<Rightarrow> bool) \<Rightarrow> char option \<Rightarrow> string \<Rightarrow> bool" where
  "anywhere P prev [] = P prev []"
| "anywhere P prev (c # cs) = (P prev (c # cs) \<or> anywhere P (Some c) cs)"

fun dotStar :: "(char option \<Rightarrow> string \<Rightarrow> bool) \<Rightarrow> char option \<Rightarrow> string \<Rightarrow> bool" where
  "dotStar P prev [] = P prev []"
| "dotStar P prev (c # cs) = (P prev (c # cs) \<or> (\<not> isLineTerminator c \<and> dotStar P (Some c) cs))"

text \<open>\<open>\b(w1|w2|...)\b\<close> at the head of the input, followed by \<open>K\<close>.\<close>

definition wordThen ::
  "string list \<Rightarrow> (char option \<Rightarrow> string \<Rightarrow> bool) \<Rightarrow> char option \<Rightarrow> string \<Rightarrow> bool" where
  "wordThen ws K prev s =
    (wordBoundary prev s \<and>
     list_ex (\<lambda>w. case stripPrefixCI w s of
                    None \<Rightarrow> False
                  | Some r \<Rightarrow> wordBoundary (prevAfter prev s (length w)) r
                             \<and> K (prevAfter prev s (length w)) r) ws)"

section \<open>Rule-based classifier (src/router/rules.ts)\<close>

record ScoringResult =
  score :: real
  sr_tier :: "Tier option"
  sr_confidence :: real
  signals :: "template list"

record ScoringConfig =
  tokenCountSimple :: real
  tokenCountComplex :: real
  codeKeywords :: "string list"
  reasoningKeywords :: "string list"
  simpleKeywords :: "string list"
  technicalKeywords :: "string list"
  creativeKeywords :: "string list"
  imperativeVerbs :: "string list"
  constraintIndicators :: "string list"
  outputFormatKeywords :: "string list"
  referenceKeywords :: "string list"
  negationKeywords :: "string list"
  domainSpecificKeywords :: "string list"
  dimensionWeights :: "string \<rightharpoonup> real"
  simpleMedium :: real
  mediumComplex :: real
  complexReasoning :: real
  confidenceSteepness :: real
  confidenceThreshold :: real

record DimensionScore =
  dname :: string
  dscore :: real
  signal :: "template option"

definition scoreTokenCount :: "real \<Rightarrow> real \<Rightarrow> real \<Rightarrow> DimensionScore" where
  "scoreTokenCount estimatedTokens simpleT complexT =
    (if estimatedTokens < simpleT
     then \<lparr> dname = ''tokenCount'', dscore = - 1,
            signal = Some [Str ''short ('', Num estimatedTokens, Str '' tokens)''] \<rparr>
     else if estimatedTokens > complexT
     then \<lparr> dname = ''tokenCount'', dscore = 1,
            signal = Some [Str ''long ('', Num estimatedTokens, Str '' tokens)''] \<rparr>
     else \<lparr> dname = ''tokenCount'', dscore = 0, signal = None \<rparr>)"

text \<open>The keywords of the list that occur in the (already lower-cased) text, each
  lower-cased before the test; an entry listed twice is counted twice.\<close>

definition keywordMatches :: "string \<Rightarrow> string list \<Rightarrow> string list" where
  "keywordMatches text keywords = filter (\<lambda>kw. includesStr text (toLowerCase kw)) keywords"

definition scoreKeywordMatch ::
  "string \<Rightarrow> string list \<Rightarrow> string \<Rightarrow> string \<Rightarrow> nat \<times> nat \<Rightarrow> real \<times> real \<times> real
    \<Rightarrow> DimensionScore" where
  "scoreKeywordMatch text keywords name signalLabel thresholds scores =
    (case thresholds of (lowT, highT) \<Rightarrow>
     case scores of (noneS, lowS, highS) \<Rightarrow>
       let matches = keywordMatches text keywords;
           sig = [Str (signalLabel @ '' ('' @ join '', '' (take 3 matches) @ '')'')]
       in if length matches \<ge> highT
          then \<lparr> dname = name, dscore = highS, signal = Some sig \<rparr>
          else if length matches \<ge> lowT
          then \<lparr> dname = name, dscore = lowS, signal = Some sig \<rparr>
          else \<lparr> dname = name, dscore = noneS, signal = None \<rparr>)"

text \<open>The three patterns of \<open>scoreMultiStep\<close>: \<open>/first.*then/i\<close>, \<open>/step \d/i\<close>
  and \<open>/\d\.\s/\<close>.\<close>

definition re_firstThen :: "string \<Rightarrow> bool" where
  "re_firstThen s =
    anywhere (\<lambda>prev r. case stripPrefixCI ''first'' r of
                          None \<Rightarrow> False
                        | Some r1 \<Rightarrow> dotStar (\<lambda>p q. stripPrefixCI ''then'' q \<noteq> None)
                                      (prevAfter prev r 5) r1) None s"

definition re_stepDigit :: "string \<Rightarrow> bool" where
  "re_stepDigit s =
    anywhere (\<lambda>prev r. case stripPrefixCI ''step '' r of
                          Some (d # _) \<Rightarrow> isDigit d
                        | _ \<Rightarrow> False) None s"

definition re_digitDotSpace :: "string \<Rightarrow> bool" where
  "re_digitDotSpace s =
    anywhere (\<lambda>prev r. case r of
                          d # dot # sp # _ \<Rightarrow> isDigit d \<and> dot = CHR ''.'' \<and> isSpace sp
                        | _ \<Rightarrow> False) None s"

definition scoreMultiStep :: "string \<Rightarrow> DimensionScore" where
  "scoreMultiStep text =
    (let patterns = [re_firstThen, re_stepDigit, re_digitDotSpace];
         hits = filter (\<lambda>p. p text) patterns
     in if length hits > 0
        then \<lparr> dname = ''multiStepPatterns'', dscore = 0.5, signal = Some [Str ''multi-step''] \<rparr>
        else \<lparr> dname = ''multiStepPatterns'', dscore = 0, signal = None \<rparr>)"

definition scoreQuestionComplexity :: "string \<Rightarrow> DimensionScore" where
  "scoreQuestionComplexity prompt =
    (let count = length (filter (\<lambda>c. c = CHR ''?'') prompt)
     in if count > 3
        then \<lparr> dname = ''questionComplexity'', dscore = 0.5,
               signal = Some [Num (real count), Str '' questions''] \<rparr>
        else \<lparr> dname = ''questionComplexity'', dscore = 0, signal = None \<rparr>)"

text \<open>
  Double-precision arithmetic: the result of an operation is the exact result rounded
  to the nearest number with a significand of 53 bits, a tie going to the even
  significand. \<open>ulpExponent x\<close> is the exponent of the last bit of the significand
  for a number of the size of \<open>x\<close>. The range of the exponent is not bounded here
  (no overflow to infinity, no subnormal number).
\<close>

definition roundEven :: "real \<Rightarrow> int" where
  "roundEven r =
    (let f = \<lfloor>r\<rfloor>; d = r - of_int f
     in if d < 1 / 2 then f else if d > 1 / 2 then f + 1 else if even f then f else f + 1)"

definition ulpExponent :: "real \<Rightarrow> int" where
  "ulpExponent x = \<lfloor>log 2 \<bar>x\<bar>\<rfloor> - 52"

definition toDouble :: "real \<Rightarrow> real" where
  "toDouble x =
    (if x = 0 then 0
     else sgn x * (of_int (roundEven (\<bar>x\<bar> / 2 powr of_int (ulpExponent x)))
                   * 2 powr of_int (ulpExponent x)))"

text \<open>
  Sigmoid confidence calibration, \<open>1 / (1 + Math.exp(-steepness * distance))\<close>: the
  product, the exponential, the sum and the quotient are rounded one after the other.
  \<open>Math.exp\<close> is taken to return the double nearest to the exponential.
\<close>

definition calibrateConfidence :: "real \<Rightarrow> real \<Rightarrow> real" where
  "calibrateConfidence distance steepness =
    toDouble (1 / toDouble (1 + toDouble (exp (toDouble (- steepness * distance)))))"

definition dimensions :: "string \<Rightarrow> string \<Rightarrow> string \<Rightarrow> real \<Rightarrow> ScoringConfig \<Rightarrow> DimensionScore list" where
  "dimensions prompt text userText estimatedTokens config =
    [ scoreTokenCount estimatedTokens (tokenCountSimple config) (tokenCountComplex config),
      scoreKeywordMatch text (codeKeywords config) ''codePresence'' ''code'' (1, 2) (0, 0.5, 1),
      scoreKeywordMatch userText (reasoningKeywords config) ''reasoningMarkers'' ''reasoning''
        (1, 2) (0, 0.7, 1),
      scoreKeywordMatch text (technicalKeywords config) ''technicalTerms'' ''technical''
        (2, 4) (0, 0.5, 1),
      scoreKeywordMatch text (creativeKeywords config) ''creativeMarkers'' ''creative''
        (1, 2) (0, 0.5, 0.7),
      scoreKeywordMatch text (simpleKeywords config) ''simpleIndicators'' ''simple''
        (1, 2) (0, - 1, - 1),
      scoreMultiStep text,
      scoreQuestionComplexity prompt,
      scoreKeywordMatch text (imperativeVerbs config) ''imperativeVerbs'' ''imperative''
        (1, 2) (0, 0.3, 0.5),
      scoreKeywordMatch text (constraintIndicators config) ''constraintCount'' ''constraints''
        (1, 3) (0, 0.3, 0.7),
      scoreKeywordMatch text (outputFormatKeywords config) ''outputFormat'' ''format''
        (1, 2) (0, 0.4, 0.7),
      scoreKeywordMatch text (referenceKeywords config) ''referenceComplexity'' ''references''
        (1, 2) (0, 0.3, 0.5),
      scoreKeywordMatch text (negationKeywords config) ''negationComplexity'' ''negation''
        (2, 3) (0, 0.3, 0.5),
      scoreKeywordMatch text (domainSpecificKeywords config) ''domainSpecificity''
        ''domain-specific'' (1, 2) (0, 0.5, 0.8) ]"

text \<open>The loop \<open>for (const d of dimensions) weightedScore += d.score * (weights[d.name] ?? 0)\<close>.\<close>

definition weightedSum :: "(string \<rightharpoonup> real) \<Rightarrow> DimensionScore list \<Rightarrow> real" where
  "weightedSum weights ds =
    foldl (\<lambda>acc d. acc + dscore d * (case weights (dname d) of None \<Rightarrow> 0 | Some w \<Rightarrow> w)) 0 ds"

text \<open>The tier of the range the score falls in, with the distance to the nearest
  boundary of that range.\<close>

definition tierByBoundaries :: "real \<Rightarrow> ScoringConfig \<Rightarrow> Tier \<times> real" where
  "tierByBoundaries weightedScore config =
    (if weightedScore < simpleMedium config
     then (SIMPLE, simpleMedium config - weightedScore)
     else if weightedScore < mediumComplex config
     then (MEDIUM, min (weightedScore - simpleMedium config) (mediumComplex config - weightedScore))
     else if weightedScore < complexReasoning config
     then (COMPLEX, min (weightedScore - mediumComplex config)
                        (complexReasoning config - weightedScore))
     else (REASONING, weightedScore - complexReasoning config))"

definition classifyByRules ::
  "string \<Rightarrow> string option \<Rightarrow> real \<Rightarrow> ScoringConfig \<Rightarrow> ScoringResult" where
  "classifyByRules prompt systemPrompt estimatedTokens config =
    (let text = toLowerCase ((case systemPrompt of None \<Rightarrow> [] | Some s \<Rightarrow> s) @ '' '' @ prompt);
         userText = toLowerCase prompt;
         dims = dimensions prompt text userText estimatedTokens config;
         sigs = List.map_filter signal dims;
         weightedScore = weightedSum (dimensionWeights config) dims;
         reasoningMatches = keywordMatches userText (reasoningKeywords config)
     in if length reasoningMatches \<ge> 2
        then (let conf = calibrateConfidence (max weightedScore 0.3) (confidenceSteepness config)
              in \<lparr> score = weightedScore, sr_tier = Some REASONING,
                   sr_confidence = max conf 0.85, signals = sigs \<rparr>)
        else (case tierByBoundaries weightedScore config of (t, distanceFromBoundary) \<Rightarrow>
              let conf = calibrateConfidence distanceFromBoundary (confidenceSteepness config)
              in if conf < confidenceThreshold config
                 then \<lparr> score = weightedScore, sr_tier = None, sr_confidence = conf, signals = sigs \<rparr>
                 else \<lparr> score = weightedScore, sr_tier = Some t, sr_confidence = conf,
                        signals = sigs \<rparr>))"

section \<open>Router entry point (src/router/index.ts)\<close>

record ClassifierConfig =
  llmModel :: string
  llmMaxTokens :: real
  llmTemperature :: real
  promptTruncationChars :: real
  cacheTtlMs :: real

record OverridesConfig =
  maxTokensForceComplex :: real
  structuredOutputMinTier :: Tier
  ambiguousDefaultTier :: Tier

record RoutingConfig =
  version :: string
  classifier :: ClassifierConfig
  scoring :: ScoringConfig
  tiers :: TierConfigs
  overrides :: OverridesConfig

record RouterOptions =
  config :: RoutingConfig
  modelPricing :: PricingMap

text \<open>\<open>Math.ceil(s.length / 4)\<close>.\<close>

definition tokensOf :: "string \<Rightarrow> real" where
  "tokensOf s = of_int \<lceil>real (length s) / 4\<rceil>"

definition tierRank :: "Tier \<Rightarrow> nat" where
  "tierRank t = (case t of SIMPLE \<Rightarrow> 0 | MEDIUM \<Rightarrow> 1 | COMPLEX \<Rightarrow> 2 | REASONING \<Rightarrow> 3)"

definition tierName :: "Tier \<Rightarrow> string" where
  "tierName t = (case t of SIMPLE \<Rightarrow> ''SIMPLE'' | MEDIUM \<Rightarrow> ''MEDIUM''
                 | COMPLEX \<Rightarrow> ''COMPLEX'' | REASONING \<Rightarrow> ''REASONING'')"

text \<open>The test of the user prompt for a structured-output request:
  \<open>/\b(json|yaml|xml|csv)\b.*\b(format|output|respond|return)\b|\b(format|output|respond|return)\b.*\b(json|yaml|xml|csv)\b/i\<close>.\<close>

definition formatWords :: "string list" where
  "formatWords = [''json'', ''yaml'', ''xml'', ''csv'']"

definition outputWords :: "string list" where
  "outputWords = [''format'', ''output'', ''respond'', ''return'']"

definition hasStructuredOutput :: "string \<Rightarrow> bool" where
  "hasStructuredOutput prompt =
    anywhere (\<lambda>prev r.
        wordThen formatWords (dotStar (wordThen outputWords (\<lambda>p q. True))) prev r
      \<or> wordThen outputWords (dotStar (wordThen formatWords (\<lambda>p q. True))) prev r) None prompt"

text \<open>\<open>xs.join(", ")\<close> on the signals.\<close>

fun joinT :: "template \<Rightarrow> template list \<Rightarrow> template" where
  "joinT sep [] = []"
| "joinT sep [x] = x"
| "joinT sep (x # y # ys) = x @ sep @ joinT sep (y # ys)"

definition route :: "string \<Rightarrow> string option \<Rightarrow> real \<Rightarrow> RouterOptions \<Rightarrow> RoutingDecision" where
  "route prompt systemPrompt maxOutputTokens options =
    (let cfg = config options;
         pricing = modelPricing options;
         fullText = (case systemPrompt of None \<Rightarrow> [] | Some s \<Rightarrow> s) @ '' '' @ prompt;
         totalTokens = tokensOf fullText;
         promptTokens = tokensOf prompt
     in if totalTokens > maxTokensForceComplex (overrides cfg)
        then selectModel COMPLEX 0.95 Rules
               [Str ''Input exceeds '', Num (maxTokensForceComplex (overrides cfg)), Str '' tokens'']
               (tiers cfg) pricing totalTokens maxOutputTokens
        else
          let structured = hasStructuredOutput prompt;
              ruleResult = classifyByRules prompt systemPrompt promptTokens (scoring cfg);
              reasoning0 = [Str ''score='', Num (score ruleResult), Str '' | '']
                             @ joinT [Str '', ''] (signals ruleResult);
              (t1, confidence1, reasoning1) =
                 (case sr_tier ruleResult of
                    Some t \<Rightarrow> (t, sr_confidence ruleResult, reasoning0)
                  | None \<Rightarrow> (ambiguousDefaultTier (overrides cfg), 0.5,
                             reasoning0 @ [Str '' | ambiguous -> default: '',
                                           Str (tierName (ambiguousDefaultTier (overrides cfg)))]));
              minTier = structuredOutputMinTier (overrides cfg);
              (t2, reasoning2) =
                 (if structured \<and> tierRank t1 < tierRank minTier
                  then (minTier, reasoning1 @ [Str '' | upgraded to '', Str (tierName minTier),
                                               Str '' (structured output)''])
                  else (t1, reasoning1))
          in selectModel t2 confidence1 Rules reasoning2 (tiers cfg) pricing totalTokens
               maxOutputTokens)"

section \<open>Tier directive in the last user message (proxy, forced-tier version)\<close>






text \<open>\<open>.replace(/[ \t]{2,}/g, " ")\<close>: a run of two or more blanks or tabs becomes
  one blank.\<close>

definition isBlank :: "char \<Rightarrow> bool" where
  "isBlank c = (c = CHR '' '' \<or> c = CHR 0x09)"




record ContentPart =
  ptype :: string
  ptext :: "string option"

datatype Content = CString string | CParts "ContentPart list"

record ChatMessage =
  role :: string
  content :: "Content option"


















section \<open>Request deduplication (src/dedup.ts)\<close>

text \<open>A \<open>Buffer\<close> is a list of bytes; a header object is the list of its entries in
  insertion order.\<close>

type_synonym buffer = "char list"

type_synonym Headers = "(string \<times> string) list"

record HttpResponse =
  status :: nat
  headers :: Headers
  body :: buffer

record CachedResponse = HttpResponse +
  completedAt :: int

text \<open>
  Promises are numbered in the order of their creation. The callback
  \<open>entry.resolve\<close> is kept as the list of the promises it resolves, in the order in
  which it resolves them: \<open>getInflight\<close> replaces it by a function that first calls
  the previous callback and then resolves the two promises it has just created.
\<close>

record InflightEntry =
  resolve :: "nat list"
  waiters :: "nat list"

text \<open>The two maps and the time to live of \<open>RequestDeduplicator\<close>, with the store
  of the promises: \<open>settled\<close> lists the resolved promises with their values in the
  order of resolution, a promise that is not listed is pending.\<close>

record RequestDeduplicator =
  inflight :: "string \<rightharpoonup> InflightEntry"
  completed :: "string \<rightharpoonup> CachedResponse"
  ttlMs :: int
  settled :: "(nat \<times> CachedResponse) list"
  nextPromise :: nat

definition DEFAULT_TTL_MS :: int where
  "DEFAULT_TTL_MS = 30000"

definition MAX_BODY_SIZE :: nat where
  "MAX_BODY_SIZE = 1048576"

definition newDeduplicator :: "int \<Rightarrow> RequestDeduplicator" where
  "newDeduplicator ttl =
    \<lparr> inflight = Map.empty, completed = Map.empty, ttlMs = ttl, settled = [], nextPromise = 0 \<rparr>"

definition promiseValue :: "RequestDeduplicator \<Rightarrow> nat \<Rightarrow> CachedResponse option" where
  "promiseValue d p = map_of (settled d) p"

text \<open>Resolving a promise that is already resolved has no effect.\<close>

definition settle :: "CachedResponse \<Rightarrow> nat \<Rightarrow> RequestDeduplicator \<Rightarrow> RequestDeduplicator" where
  "settle v p d =
    (if promiseValue d p = None then d\<lparr> settled := settled d @ [(p, v)] \<rparr> else d)"

text \<open>\<open>getCached(key)\<close>, with the value of \<open>Date.now()\<close>.\<close>

definition getCached ::
  "string \<Rightarrow> int \<Rightarrow> RequestDeduplicator \<Rightarrow> CachedResponse option \<times> RequestDeduplicator" where
  "getCached key now d =
    (case completed d key of
       None \<Rightarrow> (None, d)
     | Some entry \<Rightarrow>
         if now - completedAt entry > ttlMs d
         then (None, d\<lparr> completed := (completed d)(key := None) \<rparr>)
         else (Some entry, d))"

text \<open>\<open>getInflight(key)\<close>: the promise returned to the joiner is created first, the
  promise pushed on \<open>waiters\<close> second.\<close>

definition getInflight ::
  "string \<Rightarrow> RequestDeduplicator \<Rightarrow> nat option \<times> RequestDeduplicator" where
  "getInflight key d =
    (case inflight d key of
       None \<Rightarrow> (None, d)
     | Some entry \<Rightarrow>
         let p = nextPromise d;
             r = p + 1;
             entry' = \<lparr> resolve = resolve entry @ [p, r], waiters = waiters entry @ [r] \<rparr>
         in (Some p, d\<lparr> inflight := (inflight d)(key \<mapsto> entry'), nextPromise := p + 2 \<rparr>))"

definition markInflight :: "string \<Rightarrow> RequestDeduplicator \<Rightarrow> RequestDeduplicator" where
  "markInflight key d = d\<lparr> inflight := (inflight d)(key \<mapsto> \<lparr> resolve = [], waiters = [] \<rparr>) \<rparr>"

definition prune :: "int \<Rightarrow> RequestDeduplicator \<Rightarrow> RequestDeduplicator" where
  "prune now d =
    d\<lparr> completed :=
         (\<lambda>k. case completed d k of
                None \<Rightarrow> None
              | Some entry \<Rightarrow> if now - completedAt entry > ttlMs d then None else Some entry) \<rparr>"

text \<open>\<open>complete(key, result)\<close>, with the value of \<open>Date.now()\<close> in \<open>prune\<close>.\<close>

definition complete ::
  "string \<Rightarrow> CachedResponse \<Rightarrow> int \<Rightarrow> RequestDeduplicator \<Rightarrow> RequestDeduplicator" where
  "complete key result now d =
    (let d1 = (if length (body result) \<le> MAX_BODY_SIZE
               then d\<lparr> completed := (completed d)(key \<mapsto> result) \<rparr> else d);
         d2 = (case inflight d1 key of
                 None \<Rightarrow> d1
               | Some entry \<Rightarrow>
                   (fold (settle result) (resolve entry) d1)
                     \<lparr> inflight := (inflight d1)(key := None) \<rparr>)
     in prune now d2)"

definition removeInflight :: "string \<Rightarrow> RequestDeduplicator \<Rightarrow> RequestDeduplicator" where
  "removeInflight key d = d\<lparr> inflight := (inflight d)(key := None) \<rparr>"

text \<open>A number of joiners of one key, one after the other: the promises handed out,
  in the order of registration.\<close>

fun joinN :: "nat \<Rightarrow> string \<Rightarrow> RequestDeduplicator \<Rightarrow> nat list \<times> RequestDeduplicator" where
  "joinN 0 key d = ([], d)"
| "joinN (Suc n) key d =
    (case getInflight key d of
       (None, d') \<Rightarrow> ([], d')
     | (Some p, d') \<Rightarrow> (case joinN n key d' of (ps, d'') \<Rightarrow> (p # ps, d'')))"

text \<open>The promises of an entry are pending, distinct, and created before now; so are
  the resolved promises.\<close>

definition pendingEntry :: "RequestDeduplicator \<Rightarrow> InflightEntry \<Rightarrow> bool" where
  "pendingEntry d e =
    (distinct (resolve e)
     \<and> list_all (\<lambda>p. p < nextPromise d \<and> promiseValue d p = None) (resolve e)
     \<and> list_all (\<lambda>x. fst x < nextPromise d) (settled d))"

text \<open>
  The state of a deduplicator that the methods keep: the promises of every in-flight
  entry are distinct, created and pending, every resolved promise was created, and no
  promise belongs to the entries of two keys.
\<close>

definition wellFormed :: "RequestDeduplicator \<Rightarrow> bool" where
  "wellFormed d =
    ((\<forall>k e. inflight d k = Some e \<longrightarrow>
        distinct (resolve e)
        \<and> (\<forall>p \<in> set (resolve e). p < nextPromise d \<and> promiseValue d p = None))
     \<and> (\<forall>x \<in> set (settled d). fst x < nextPromise d)
     \<and> (\<forall>k k' e e'. k \<noteq> k' \<longrightarrow> inflight d k = Some e \<longrightarrow> inflight d k' = Some e' \<longrightarrow>
          set (resolve e) \<inter> set (resolve e') = {}))"

section \<open>Proxy: deduplication check and forwarding (src/proxy.ts)\<close>

text \<open>\<open>Buffer.from(s)\<close> encodes a string in UTF-8: a code unit below 128 is one byte,
  a code unit from 128 to 255 two bytes.\<close>

definition utf8Char :: "char \<Rightarrow> buffer" where
  "utf8Char c =
    (let n = (of_char c :: nat)
     in if n < 128 then [c] else [char_of (192 + n div 64), char_of (128 + n mod 64)])"

definition utf8 :: "string \<Rightarrow> buffer" where
  "utf8 s = concat (map utf8Char s)"

text \<open>\<open>upstream.text()\<close> decodes the bytes of the body. The one-byte and two-byte
  forms, which give code units below 256, are decoded; any other byte is passed on
  unchanged (its decoding lies outside the code units covered here).\<close>

fun utf8Decode :: "buffer \<Rightarrow> string" where
  "utf8Decode [] = []"
| "utf8Decode [a] = [a]"
| "utf8Decode (a # b # bs) =
    (let m = (of_char a :: nat); n = (of_char b :: nat)
     in if (m = 194 \<or> m = 195) \<and> 128 \<le> n \<and> n < 192
        then char_of ((m - 192) * 64 + (n - 128)) # utf8Decode bs
        else a # utf8Decode (b # bs))"

text \<open>Decimal digits of a natural number (\<open>String(n)\<close> for such a number).\<close>

fun showNat :: "nat \<Rightarrow> string" where
  "showNat n = (if n < 10 then [char_of (48 + n)] else showNat (n div 10) @ [char_of (48 + n mod 10)])"

text \<open>\<open>JSON.stringify\<close> on a string, and on the two error objects of the proxy.\<close>

definition hexDigit :: "nat \<Rightarrow> char" where
  "hexDigit d = (if d < 10 then char_of (48 + d) else char_of (87 + d))"

definition jsonEscape :: "char \<Rightarrow> string" where
  "jsonEscape c =
    (let n = (of_char c :: nat)
     in if n = 34 then [CHR 0x5C, CHR 0x22]
        else if n = 92 then [CHR 0x5C, CHR 0x5C]
        else if n = 8 then [CHR 0x5C, CHR ''b'']
        else if n = 12 then [CHR 0x5C, CHR ''f'']
        else if n = 10 then [CHR 0x5C, CHR ''n'']
        else if n = 13 then [CHR 0x5C, CHR ''r'']
        else if n = 9 then [CHR 0x5C, CHR ''t'']
        else if n < 32 then [CHR 0x5C, CHR ''u'', CHR ''0'', CHR ''0'', hexDigit (n div 16),
                             hexDigit (n mod 16)]
        else [c])"

definition jsonQuote :: "string \<Rightarrow> string" where
  "jsonQuote s = [CHR 0x22] @ concat (map jsonEscape s) @ [CHR 0x22]"

definition stringifyUpstreamError :: "string \<Rightarrow> nat \<Rightarrow> string" where
  "stringifyUpstreamError message st =
    [CHR ''{''] @ jsonQuote ''error'' @ '':{'' @ jsonQuote ''message'' @ '':'' @ jsonQuote message
      @ '','' @ jsonQuote ''type'' @ '':'' @ jsonQuote ''upstream_error''
      @ '','' @ jsonQuote ''status'' @ '':'' @ showNat st @ ''}}''"

definition stringifyProxyError :: "string \<Rightarrow> string" where
  "stringifyProxyError message =
    [CHR ''{''] @ jsonQuote ''error'' @ '':{'' @ jsonQuote ''message'' @ '':'' @ jsonQuote message
      @ '','' @ jsonQuote ''type'' @ '':'' @ jsonQuote ''proxy_error'' @ ''}}''"

text \<open>Assignment \<open>obj[key] = value\<close> on a header object.\<close>

definition objSet :: "string \<Rightarrow> string \<Rightarrow> Headers \<Rightarrow> Headers" where
  "objSet k v hs =
    (if map_of hs k = None then hs @ [(k, v)]
     else map (\<lambda>(k', v'). if k' = k then (k', v) else (k', v')) hs)"

text \<open>The headers of the upstream response without \<open>transfer-encoding\<close> and
  \<open>connection\<close>.\<close>

definition responseHeaders :: "Headers \<Rightarrow> Headers" where
  "responseHeaders upstreamHeaders =
    fold (\<lambda>(k, v) acc. if k = ''transfer-encoding'' \<or> k = ''connection'' then acc
                        else objSet k v acc) upstreamHeaders []"

definition heartbeat :: string where
  "heartbeat = '': heartbeat'' @ [CHR 0x0A, CHR 0x0A]"

definition doneEvent :: string where
  "doneEvent = ''data: [DONE]'' @ [CHR 0x0A, CHR 0x0A]"

definition dataEvent :: "string \<Rightarrow> string" where
  "dataEvent payload = ''data: '' @ payload @ [CHR 0x0A, CHR 0x0A]"

definition earlyHeaders :: Headers where
  "earlyHeaders = [(''content-type'', ''text/event-stream''), (''cache-control'', ''no-cache''),
                   (''connection'', ''keep-alive'')]"

definition DEFAULT_REQUEST_TIMEOUT_MS :: nat where
  "DEFAULT_REQUEST_TIMEOUT_MS = 180000"

text \<open>
  What \<open>fetchWithRetry\<close> and the reading of the body do: the call throws (with the
  message of the error, and whether it is the AbortError of the timeout), or it
  returns a response with a status, headers and the chunks of the body, the reading
  of which ends normally or throws after these chunks.
\<close>

datatype Upstream =
    Threw string bool
  | Responded nat Headers "buffer list" "string option"

text \<open>
  What a request meets while it is handled: the values of \<open>Date.now()\<close> in
  \<open>getCached\<close>, at \<open>completedAt\<close> and in \<open>prune\<close>, the number of times the
  heartbeat timer fires before the upstream call returns, whether the client closes
  the connection while the upstream call is pending, and the upstream call itself.
\<close>

record Env =
  tCheck :: int
  tDone :: int
  tPrune :: int
  beats :: nat
  closedEarly :: bool
  requestTimeoutMs :: "nat option"
  upstream :: Upstream

text \<open>The result of \<open>proxyRequest\<close>: a response written to the end, a wait on the
  promise of a request in flight, or an error thrown, with what has been written of
  the response when its headers are sent.\<close>

datatype Outcome =
    Sent HttpResponse
  | Joined nat
  | Failed string "HttpResponse option"

record ProxyState =
  dedup :: RequestDeduplicator
  upstreamCalls :: nat

definition response :: "CachedResponse \<Rightarrow> HttpResponse" where
  "response c = \<lparr> status = status c, headers = headers c, body = body c \<rparr>"

text \<open>
  From \<open>markInflight\<close> on. The handler of \<open>close\<close> runs \<open>removeInflight\<close> as long as
  the variable \<open>completed\<close> is false: when the client closes early, and, because of
  the \<open>return\<close> before \<open>completed = true\<close>, when the response of the streaming error
  branch has ended.
\<close>

definition forwardRequest :: "string \<Rightarrow> bool \<Rightarrow> Env \<Rightarrow> ProxyState \<Rightarrow> Outcome \<times> ProxyState" where
  "forwardRequest dedupKey isStreaming env st =
    (let early = (if isStreaming then concat (replicate (Suc (beats env)) (utf8 heartbeat)) else []);
         written = (\<lambda>b. \<lparr> status = 200, headers = earlyHeaders, body = early @ b \<rparr>);
         d0 = (if closedEarly env then removeInflight dedupKey (dedup st) else dedup st);
         calls = upstreamCalls st + 1;
         timeoutMs = (case requestTimeoutMs env of None \<Rightarrow> DEFAULT_REQUEST_TIMEOUT_MS | Some t \<Rightarrow> t);
         fails = (\<lambda>msg partial.
            (Failed msg partial, \<lparr> dedup = removeInflight dedupKey d0, upstreamCalls = calls \<rparr>))
     in case upstream env of
          Threw msg isAbort \<Rightarrow>
            fails (if isAbort then ''Request timed out after '' @ showNat timeoutMs @ ''ms'' else msg)
                  (if isStreaming then Some (written []) else None)
        | Responded ust uhs chunks readError \<Rightarrow>
            if isStreaming then
              (if ust \<noteq> 200 then
                 (case readError of
                    Some msg \<Rightarrow> fails msg (Some (written []))
                  | None \<Rightarrow>
                      let errBody = utf8Decode (concat chunks);
                          errEvent = dataEvent (stringifyUpstreamError errBody ust);
                          d1 = complete dedupKey
                                 \<lparr> status = 200, headers = [(''content-type'', ''text/event-stream'')],
                                   body = utf8 (errEvent @ doneEvent), completedAt = tDone env \<rparr>
                                 (tPrune env) d0
                      in (Sent (written (utf8 errEvent @ utf8 doneEvent)),
                          \<lparr> dedup = removeInflight dedupKey d1, upstreamCalls = calls \<rparr>))
               else
                 (case readError of
                    Some msg \<Rightarrow> fails msg (Some (written (concat chunks)))
                  | None \<Rightarrow>
                      (Sent (written (concat chunks)),
                       \<lparr> dedup = complete dedupKey
                                   \<lparr> status = 200,
                                     headers = [(''content-type'', ''text/event-stream'')],
                                     body = concat chunks, completedAt = tDone env \<rparr>
                                   (tPrune env) d0,
                         upstreamCalls = calls \<rparr>)))
            else
              (let hs = responseHeaders uhs
               in case readError of
                    Some msg \<Rightarrow> fails msg (Some \<lparr> status = ust, headers = hs, body = concat chunks \<rparr>)
                  | None \<Rightarrow>
                      (Sent \<lparr> status = ust, headers = hs, body = concat chunks \<rparr>,
                       \<lparr> dedup = complete dedupKey
                                   \<lparr> status = ust, headers = hs, body = concat chunks,
                                     completedAt = tDone env \<rparr>
                                   (tPrune env) d0,
                         upstreamCalls = calls \<rparr>)))"

text \<open>
  \<open>proxyRequest\<close> from the deduplication check on, for the body that is sent
  upstream and the flag \<open>stream\<close> of the request; \<open>hash\<close> stands for
  \<open>RequestDeduplicator.hash\<close>, the first 16 hexadecimal digits of the SHA-256 digest.
\<close>

definition proxyRequest ::
  "(buffer \<Rightarrow> string) \<Rightarrow> buffer \<Rightarrow> bool \<Rightarrow> Env \<Rightarrow> ProxyState \<Rightarrow> Outcome \<times> ProxyState" where
  "proxyRequest hash reqBody isStreaming env st =
    (let dedupKey = hash reqBody
     in case getCached dedupKey (tCheck env) (dedup st) of
          (Some cached, d1) \<Rightarrow> (Sent (response cached), st\<lparr> dedup := d1 \<rparr>)
        | (None, d1) \<Rightarrow>
            (case getInflight dedupKey d1 of
               (Some p, d2) \<Rightarrow> (Joined p, st\<lparr> dedup := d2 \<rparr>)
             | (None, d2) \<Rightarrow>
                 forwardRequest dedupKey isStreaming env (st\<lparr> dedup := markInflight dedupKey d2 \<rparr>)))"

text \<open>The \<open>catch\<close> of the request handler around \<open>proxyRequest\<close>.\<close>

definition handleRequest ::
  "(buffer \<Rightarrow> string) \<Rightarrow> buffer \<Rightarrow> bool \<Rightarrow> Env \<Rightarrow> ProxyState \<Rightarrow> Outcome \<times> ProxyState" where
  "handleRequest hash reqBody isStreaming env st =
    (case proxyRequest hash reqBody isStreaming env st of
       (Failed msg None, st') \<Rightarrow>
         (Sent \<lparr> status = 502, headers = [(''Content-Type'', ''application/json'')],
                 body = utf8 (stringifyProxyError (''Proxy error: '' @ msg)) \<rparr>, st')
     | (Failed msg (Some partial), st') \<Rightarrow>
         (Sent (partial\<lparr> body := body partial @ utf8 (dataEvent (stringifyProxyError msg))
                                  @ utf8 doneEvent \<rparr>), st')
     | (out, st') \<Rightarrow> (out, st'))"

text \<open>
  The entry that \<open>proxyRequest\<close> hands to \<open>deduplicator.complete\<close> for an upstream
  response of status \<open>ust\<close> with headers \<open>uhs\<close> and body \<open>chunks\<close>: on the streaming
  path the event stream (for a status other than 200 the error event and the \<open>[DONE]\<close>
  event) with status 200 and the content type; otherwise the response as it came.
\<close>

definition cachedEntry :: "bool \<Rightarrow> nat \<Rightarrow> Headers \<Rightarrow> buffer list \<Rightarrow> int \<Rightarrow> CachedResponse" where
  "cachedEntry isStreaming ust uhs chunks t =
    (if isStreaming
     then \<lparr> status = 200, headers = [(''content-type'', ''text/event-stream'')],
            body = (if ust \<noteq> 200
                    then utf8 (dataEvent (stringifyUpstreamError (utf8Decode (concat chunks)) ust)
                               @ doneEvent)
                    else concat chunks),
            completedAt = t \<rparr>
     else \<lparr> status = ust, headers = responseHeaders uhs, body = concat chunks, completedAt = t \<rparr>)"

section \<open>Failure of the upstream call, and the requests of the examples\<close>

text \<open>The upstream call fails when it throws or when the reading of the body throws.\<close>

definition upstreamFails :: "Upstream \<Rightarrow> bool" where
  "upstreamFails u = (case u of Threw _ _ \<Rightarrow> True | Responded _ _ _ err \<Rightarrow> err \<noteq> None)"

text \<open>The state in which the upstream call is made.\<close>

definition atCall :: "string \<Rightarrow> Env \<Rightarrow> ProxyState \<Rightarrow> RequestDeduplicator" where
  "atCall key env st = (if closedEarly env then removeInflight key (dedup st) else dedup st)"

text \<open>Two request bodies with their keys (SHA-256 itself is not modelled: the two
  keys are the first 16 hexadecimal digits of the digests of these bodies).\<close>

definition streamBody :: buffer where
  \<open>streamBody =
    ''{"model":"openai/gpt-4o","stream":true,"messages":[{"role":"user","content":"hi"}]}''\<close>

definition plainBody :: buffer where
  \<open>plainBody = ''{"model":"openai/gpt-4o","messages":[{"role":"user","content":"hi"}]}''\<close>

definition streamKey :: string where
  "streamKey = ''caa492d09d8dd67d''"

definition plainKey :: string where
  "plainKey = ''7a6d7e9ed0520182''"

definition exampleHash :: "buffer \<Rightarrow> string" where
  "exampleHash b = (if b = streamBody then streamKey else if b = plainBody then plainKey else [])"

definition freshProxy :: ProxyState where
  "freshProxy = \<lparr> dedup = newDeduplicator DEFAULT_TTL_MS, upstreamCalls = 0 \<rparr>"

text \<open>A first request checked at time 1000 and completed at time 1500, for an upstream
  call with the given result; and a retry checked at time 3000.\<close>

definition firstEnv :: "Upstream \<Rightarrow> Env" where
  "firstEnv u = \<lparr> tCheck = 1000, tDone = 1500, tPrune = 1500, beats = 0, closedEarly = False,
                  requestTimeoutMs = None, upstream = u \<rparr>"

definition retryEnv :: "Upstream \<Rightarrow> Env" where
  "retryEnv u = \<lparr> tCheck = 3000, tDone = 3500, tPrune = 3500, beats = 0, closedEarly = False,
                  requestTimeoutMs = None, upstream = u \<rparr>"

definition upstream500 :: Upstream where
  "upstream500 = Responded 500 [(''content-type'', ''text/plain'')] [''boom''] None"

definition upstreamHuge :: Upstream where
  "upstreamHuge =
    Responded 500 [(''content-type'', ''text/plain'')] [replicate 1048576 (CHR ''x'')] None"

definition sseChunk :: buffer where
  "sseChunk = ''data: hi'' @ [CHR 0x0A, CHR 0x0A]"

definition upstreamSse :: Upstream where
  "upstreamSse = Responded 200 [(''content-type'', ''text/event-stream'')] [sseChunk] None"

definition upstreamJson :: Upstream where
  \<open>upstreamJson =
    Responded 200 [(''content-type'', ''application/json''), (''connection'', ''keep-alive'')]
      [''{"choices":[]}''] None\<close>

section \<open>The default configuration (src/router/config.ts), English keywords\<close>

text \<open>\<open>DEFAULT_ROUTING_CONFIG\<close> with the keywords of its English sections; the
  keywords in other scripts need code units from 256 on.\<close>

definition defaultWeights :: "string \<rightharpoonup> real" where
  "defaultWeights =
    map_of [(''tokenCount'', 0.08), (''codePresence'', 0.15), (''reasoningMarkers'', 0.18),
            (''technicalTerms'', 0.1), (''creativeMarkers'', 0.05), (''simpleIndicators'', 0.12),
            (''multiStepPatterns'', 0.12), (''questionComplexity'', 0.05),
            (''imperativeVerbs'', 0.03), (''constraintCount'', 0.04), (''outputFormat'', 0.03),
            (''referenceComplexity'', 0.02), (''negationComplexity'', 0.01),
            (''domainSpecificity'', 0.02)]"

definition defaultScoring :: ScoringConfig where
  "defaultScoring =
    \<lparr> tokenCountSimple = 50, tokenCountComplex = 500,
      codeKeywords = [''function'', ''class'', ''import'', ''def'', ''SELECT'', ''async'', ''await'',
                      ''const'', ''let'', ''var'', ''return'', ''```''],
      reasoningKeywords = [''prove'', ''theorem'', ''derive'', ''step by step'', ''chain of thought'',
                           ''formally'', ''mathematical'', ''proof'', ''logically''],
      simpleKeywords = [''what is'', ''define'', ''translate'', ''hello'', ''yes or no'',
                        ''capital of'', ''how old'', ''who is'', ''when was''],
      technicalKeywords = [''algorithm'', ''optimize'', ''architecture'', ''distributed'',
                           ''kubernetes'', ''microservice'', ''database'', ''infrastructure''],
      creativeKeywords = [''story'', ''poem'', ''compose'', ''brainstorm'', ''creative'', ''imagine'',
                          ''write a''],
      imperativeVerbs = [''build'', ''create'', ''implement'', ''design'', ''develop'', ''construct'',
                         ''generate'', ''deploy'', ''configure'', ''set up''],
      constraintIndicators = [''under'', ''at most'', ''at least'', ''within'', ''no more than'',
                              ''o('', ''maximum'', ''minimum'', ''limit'', ''budget''],
      outputFormatKeywords = [''json'', ''yaml'', ''xml'', ''table'', ''csv'', ''markdown'', ''schema'',
                              ''format as'', ''structured''],
      referenceKeywords = [''above'', ''below'', ''previous'', ''following'', ''the docs'', ''the api'',
                           ''the code'', ''earlier'', ''attached''],
      negationKeywords = [''don't'', ''do not'', ''avoid'', ''never'', ''without'', ''except'',
                          ''exclude'', ''no longer''],
      domainSpecificKeywords = [''quantum'', ''fpga'', ''vlsi'', ''risc-v'', ''asic'', ''photonics'',
                                ''genomics'', ''proteomics'', ''topological'', ''homomorphic'',
                                ''zero-knowledge'', ''lattice-based''],
      dimensionWeights = defaultWeights,
      simpleMedium = 0, mediumComplex = 0.15, complexReasoning = 0.25,
      confidenceSteepness = 12, confidenceThreshold = 0.6 \<rparr>"

definition defaultTiers :: TierConfigs where
  "defaultTiers t =
    (case t of
       SIMPLE \<Rightarrow> \<lparr> primary = ''deepseek/deepseek-v3.2'', fallback = [''google/gemini-2.5-flash''] \<rparr>
     | MEDIUM \<Rightarrow> \<lparr> primary = ''google/gemini-3-flash-preview'',
                   fallback = [''deepseek/deepseek-v3.2''] \<rparr>
     | COMPLEX \<Rightarrow> \<lparr> primary = ''anthropic/claude-sonnet-4.5'',
                    fallback = [''anthropic/claude-sonnet-4'', ''openai/gpt-4o''] \<rparr>
     | REASONING \<Rightarrow> \<lparr> primary = ''deepseek/deepseek-v3.2-thinking'',
                      fallback = [''openai/gpt-5.2''] \<rparr>)"

definition defaultConfig :: RoutingConfig where
  "defaultConfig =
    \<lparr> version = ''2.0'',
      classifier = \<lparr> llmModel = ''google/gemini-2.5-flash'', llmMaxTokens = 10, llmTemperature = 0,
                     promptTruncationChars = 500, cacheTtlMs = 3600000 \<rparr>,
      scoring = defaultScoring,
      tiers = defaultTiers,
      overrides = \<lparr> maxTokensForceComplex = 100000, structuredOutputMinTier = MEDIUM,
                    ambiguousDefaultTier = MEDIUM \<rparr> \<rparr>"

text \<open>Four entries of the static catalogue (src/models.ts).\<close>

definition catalogPricing :: PricingMap where
  "catalogPricing =
    map_of [(''anthropic/claude-opus-4.6'', \<lparr> inputPrice = 5, outputPrice = 25 \<rparr>),
            (''anthropic/claude-sonnet-4.5'', \<lparr> inputPrice = 3, outputPrice = 15 \<rparr>),
            (''google/gemini-3-flash-preview'', \<lparr> inputPrice = 0.5, outputPrice = 3 \<rparr>),
            (''openai/gpt-5.2'', \<lparr> inputPrice = 1.75, outputPrice = 14 \<rparr>)]"

definition defaultOptions :: RouterOptions where
  "defaultOptions = \<lparr> config = defaultConfig, modelPricing = catalogPricing \<rparr>"

section \<open>Evaluation of the string primitives\<close>

lemmas char_eval = toLowerChar_def toLowerCase_def isDigit_def isWordChar_def isSpace_def
  isLineTerminator_def asciiUpper_def eqIgnoreCase_def isWordOpt_def headOpt_def
  wordBoundary_def prevAfter_def char_of_def bit_Suc_0_iff Let_def isBlank_def

lemma keywordMatches_zip:
  "keywordMatches text kws =
    map fst (filter (\<lambda>p. includesStr text (snd p)) (zip kws (map toLowerCase kws)))"
  unfolding keywordMatches_def by (induction kws) auto

lemma tokensOf_div: "tokensOf s = real ((length s + 3) div 4)"
proof -
  have "\<lceil>real (length s) / 4\<rceil> = int ((length s + 3) div 4)"
    by (simp add: ceiling_unique field_simps)
  then show ?thesis by (simp add: tokensOf_def)
qed

section \<open>Properties of the classifier\<close>

text \<open>Rounding to a double is monotone, and it leaves a number with a short
  significand as it is.\<close>

lemma roundEven_of_int: "roundEven (of_int n) = n"
  by (simp add: roundEven_def)

lemma roundEven_bounds: "\<lfloor>r\<rfloor> \<le> roundEven r \<and> roundEven r \<le> \<lfloor>r\<rfloor> + 1"
  by (simp add: roundEven_def Let_def)

lemma roundEven_mono:
  assumes "a \<le> b"
  shows "roundEven a \<le> roundEven b"
proof (cases "\<lfloor>a\<rfloor> = \<lfloor>b\<rfloor>")
  case True
  have "a - of_int \<lfloor>b\<rfloor> \<le> b - of_int \<lfloor>b\<rfloor>" using assms by simp
  then show ?thesis unfolding roundEven_def Let_def True by auto
next
  case False
  have "\<lfloor>a\<rfloor> \<le> \<lfloor>b\<rfloor>" using assms by (rule floor_mono)
  then have "\<lfloor>a\<rfloor> + 1 \<le> \<lfloor>b\<rfloor>" using False by simp
  then show ?thesis using roundEven_bounds [of a] roundEven_bounds [of b] by linarith
qed


lemma binade:
  assumes "0 < x"
  shows "2 powr of_int \<lfloor>log 2 x\<rfloor> \<le> x \<and> x < 2 powr of_int (\<lfloor>log 2 x\<rfloor> + 1)"
  using floor_log_eq_powr_iff [of x 2 "\<lfloor>log 2 x\<rfloor>"] assms by simp

lemma binade_unique:
  assumes "0 < x" "2 powr of_int e \<le> x" "x < 2 powr of_int (e + 1)"
  shows "\<lfloor>log 2 x\<rfloor> = e"
  using floor_log_eq_powr_iff [of x 2 e] assms by simp

lemma scale_powr: "(2::real) powr of_int a / 2 powr of_int (b - 52) = 2 powr of_int (a - b + 52)"
  by (simp add: powr_diff [symmetric] algebra_simps)

lemma scaled_range:
  assumes "0 < x"
  shows "2 ^ 52 \<le> x / 2 powr of_int (ulpExponent x)
       \<and> x / 2 powr of_int (ulpExponent x) < 2 ^ 53"
proof -
  define e where "e = \<lfloor>log 2 x\<rfloor>"
  have u: "ulpExponent x = e - 52" using assms by (simp add: ulpExponent_def e_def)
  have b: "2 powr of_int e \<le> x" "x < 2 powr of_int (e + 1)"
    using binade [OF assms] by (simp_all add: e_def)
  have p: "(0::real) < 2 powr of_int (e - 52)" by simp
  have "2 powr of_int e / 2 powr of_int (e - 52) \<le> x / 2 powr of_int (e - 52)"
    using b(1) p by (simp add: divide_right_mono)
  moreover have "x / 2 powr of_int (e - 52) < 2 powr of_int (e + 1) / 2 powr of_int (e - 52)"
    using b(2) p by (simp add: divide_strict_right_mono)
  moreover have "2 powr of_int e / 2 powr of_int (e - 52) = (2::real) ^ 52"
    unfolding scale_powr by simp
  moreover have "2 powr of_int (e + 1) / 2 powr of_int (e - 52) = (2::real) ^ 53"
    unfolding scale_powr by simp
  ultimately show ?thesis unfolding u by simp
qed

lemma toDouble_pos:
  "0 < x \<Longrightarrow> toDouble x =
     of_int (roundEven (x / 2 powr of_int (ulpExponent x))) * 2 powr of_int (ulpExponent x)"
  by (simp add: toDouble_def)

lemma toDouble_minus: "toDouble (- x) = - toDouble x"
  by (simp add: toDouble_def ulpExponent_def sgn_minus)

lemma toDouble_zero: "toDouble 0 = 0"
  by (simp add: toDouble_def)

lemma toDouble_pos_range:
  assumes "0 < x"
  shows "2 powr of_int \<lfloor>log 2 x\<rfloor> \<le> toDouble x
       \<and> toDouble x \<le> 2 powr of_int (\<lfloor>log 2 x\<rfloor> + 1)"
proof -
  define e where "e = \<lfloor>log 2 x\<rfloor>"
  define s where "s = x / 2 powr of_int (ulpExponent x)"
  have u: "ulpExponent x = e - 52" using assms by (simp add: ulpExponent_def e_def)
  have r: "2 ^ 52 \<le> s" "s < 2 ^ 53" using scaled_range [OF assms] by (simp_all add: s_def)
  have "roundEven (of_int (2 ^ 52)) \<le> roundEven s" using r(1) by (intro roundEven_mono) simp
  then have lo: "(2::int) ^ 52 \<le> roundEven s" unfolding roundEven_of_int .
  have "roundEven s \<le> roundEven (of_int (2 ^ 53))" using r(2) by (intro roundEven_mono) simp
  then have hi: "roundEven s \<le> (2::int) ^ 53" unfolding roundEven_of_int .
  have "(of_int (2 ^ 52 :: int) :: real) \<le> of_int (roundEven s)"
    using lo by (simp only: of_int_le_iff)
  then have lo': "(2::real) ^ 52 \<le> of_int (roundEven s)" by simp
  have "(of_int (roundEven s) :: real) \<le> of_int (2 ^ 53 :: int)"
    using hi by (simp only: of_int_le_iff)
  then have hi': "of_int (roundEven s) \<le> (2::real) ^ 53" by simp
  have p: "(0::real) < 2 powr of_int (e - 52)" by simp
  have t: "toDouble x = of_int (roundEven s) * 2 powr of_int (e - 52)"
    using assms by (simp add: toDouble_pos s_def u)
  have a: "(2::real) ^ 52 * 2 powr of_int (e - 52) = 2 powr of_int e"
    by (simp add: powr_diff)
  have b: "(2::real) ^ 53 * 2 powr of_int (e - 52) = 2 powr of_int (e + 1)"
    by (simp add: powr_diff powr_add)
  have c1: "(2::real) powr of_int e \<le> of_int (roundEven s) * 2 powr of_int (e - 52)"
    using mult_right_mono [OF lo' less_imp_le [OF p]] unfolding a .
  have c2: "of_int (roundEven s) * 2 powr of_int (e - 52) \<le> (2::real) powr of_int (e + 1)"
    using mult_right_mono [OF hi' less_imp_le [OF p]] unfolding b .
  from c1 c2 show ?thesis unfolding t e_def by (rule conjI)
qed

lemma toDouble_nonneg: "0 \<le> x \<Longrightarrow> 0 \<le> toDouble x"
proof (cases "x = 0")
  case True
  then show ?thesis by (simp add: toDouble_zero)
next
  case False
  assume "0 \<le> x"
  then have "0 < x" using False by simp
  from toDouble_pos_range [OF this] have "2 powr of_int \<lfloor>log 2 x\<rfloor> \<le> toDouble x" by simp
  moreover have "(0::real) < 2 powr of_int \<lfloor>log 2 x\<rfloor>" by simp
  ultimately show ?thesis by linarith
qed

lemma toDouble_mono_pos:
  assumes "0 < x" "x \<le> y"
  shows "toDouble x \<le> toDouble y"
proof -
  have y: "0 < y" using assms by simp
  define ex where "ex = \<lfloor>log 2 x\<rfloor>"
  define ey where "ey = \<lfloor>log 2 y\<rfloor>"
  have "log 2 x \<le> log 2 y" using assms by simp
  then have le: "ex \<le> ey" unfolding ex_def ey_def by (rule floor_mono)
  show ?thesis
  proof (cases "ex = ey")
    case True
    have u: "ulpExponent y = ulpExponent x"
      using assms y True by (simp add: ulpExponent_def ex_def ey_def)
    have "x / 2 powr of_int (ulpExponent x) \<le> y / 2 powr of_int (ulpExponent x)"
      using assms(2) by (simp add: divide_right_mono)
    then have "roundEven (x / 2 powr of_int (ulpExponent x))
        \<le> roundEven (y / 2 powr of_int (ulpExponent x))" by (rule roundEven_mono)
    then have "(of_int (roundEven (x / 2 powr of_int (ulpExponent x))) :: real)
        \<le> of_int (roundEven (y / 2 powr of_int (ulpExponent x)))" by simp
    then show ?thesis
      unfolding toDouble_pos [OF assms(1)] toDouble_pos [OF y] u
      by (simp add: mult_right_mono)
  next
    case False
    then have "ex + 1 \<le> ey" using le by simp
    then have "(2::real) powr of_int (ex + 1) \<le> 2 powr of_int ey" by simp
    moreover have "toDouble x \<le> 2 powr of_int (ex + 1)"
      using toDouble_pos_range [OF assms(1)] by (simp add: ex_def)
    moreover have "2 powr of_int ey \<le> toDouble y"
      using toDouble_pos_range [OF y] by (simp add: ey_def)
    ultimately show ?thesis by linarith
  qed
qed

lemma toDouble_mono:
  assumes "x \<le> y"
  shows "toDouble x \<le> toDouble y"
proof -
  consider (pos) "0 < x" | (zero) "x \<le> 0" "0 \<le> y" | (neg) "y < 0" using assms by linarith
  then show ?thesis
  proof cases
    case pos
    then show ?thesis using assms by (rule toDouble_mono_pos)
  next
    case zero
    have "0 \<le> toDouble (- x)" using zero(1) by (intro toDouble_nonneg) simp
    then have "toDouble x \<le> 0" by (simp add: toDouble_minus)
    moreover have "0 \<le> toDouble y" using zero(2) by (rule toDouble_nonneg)
    ultimately show ?thesis by linarith
  next
    case neg
    have "toDouble (- y) \<le> toDouble (- x)" using neg assms by (intro toDouble_mono_pos) simp_all
    then show ?thesis by (simp add: toDouble_minus)
  qed
qed

lemma toDouble_exact:
  assumes "0 < x" "2 powr of_int e \<le> x" "x < 2 powr of_int (e + 1)"
    and "x / 2 powr of_int (e - 52) = of_int n"
  shows "toDouble x = x"
proof -
  have u: "ulpExponent x = e - 52"
    using binade_unique [OF assms(1,2,3)] assms(1) by (simp add: ulpExponent_def)
  have "toDouble x = of_int n * 2 powr of_int (e - 52)"
    unfolding toDouble_pos [OF assms(1)] u assms(4) roundEven_of_int ..
  also have "\<dots> = x" unfolding assms(4) [symmetric] by simp
  finally show ?thesis .
qed

lemma toDouble_1: "toDouble 1 = 1"
  by (rule toDouble_exact [of 1 0 "2 ^ 52"]) (simp_all add: powr_neg_numeral)

lemma toDouble_2: "toDouble 2 = 2"
  by (rule toDouble_exact [of 2 1 "2 ^ 52"]) (simp_all add: powr_neg_numeral)

lemma toDouble_half: "toDouble (1 / 2) = 1 / 2"
  by (rule toDouble_exact [of "1 / 2" "- 1" "2 ^ 52"]) (simp_all add: powr_neg_numeral)

lemma toDouble_4: "toDouble 4 = 4"
  by (rule toDouble_exact [of 4 2 "2 ^ 52"]) (simp_all add: powr_neg_numeral)

lemma toDouble_64: "toDouble 64 = 64"
  by (rule toDouble_exact [of 64 6 "2 ^ 52"]) (simp_all add: powr_neg_numeral)

lemma toDouble_tiny: "toDouble (1 / 2 ^ 64) = 1 / 2 ^ 64"
  by (rule toDouble_exact [of "1 / 2 ^ 64" "- 64" "2 ^ 52"]) (simp_all add: powr_neg_numeral)

lemma toDouble_3_256: "toDouble (3 / 256) = 3 / 256"
  by (rule toDouble_exact [of "3 / 256" "- 7" "3 * 2 ^ 51"]) (simp_all add: powr_neg_numeral)

lemma toDouble_259_256: "toDouble (259 / 256) = 259 / 256"
  by (rule toDouble_exact [of "259 / 256" 0 "259 * 2 ^ 44"]) (simp_all add: powr_neg_numeral)

lemma toDouble_1013_1024: "toDouble (1013 / 1024) = 1013 / 1024"
  by (rule toDouble_exact [of "1013 / 1024" "- 1" "1013 * 2 ^ 43"]) (simp_all add: powr_neg_numeral)

lemma roundEven_down: "r - of_int \<lfloor>r\<rfloor> < 1 / 2 \<Longrightarrow> roundEven r = \<lfloor>r\<rfloor>"
  by (simp add: roundEven_def Let_def)

lemma toDouble_near_1:
  assumes "1 \<le> y" "y < 1 + 1 / 2 ^ 53"
  shows "toDouble y = 1"
proof -
  have pos: "0 < y" using assms by simp
  have "\<lfloor>log 2 y\<rfloor> = 0" using assms by (intro binade_unique) simp_all
  then have u: "ulpExponent y = - 52" using pos by (simp add: ulpExponent_def)
  have p: "(2::real) powr of_int (- 52) = 1 / 2 ^ 52" by (simp add: powr_neg_numeral)
  define z where "z = y * 2 ^ 52"
  have s: "y / 2 powr of_int (- 52) = z" unfolding p z_def by simp
  have lo: "2 ^ 52 \<le> z" unfolding z_def using assms(1) by simp
  have "y * 2 ^ 52 < (1 + 1 / 2 ^ 53) * 2 ^ 52" using assms(2) by simp
  then have hi: "z < 2 ^ 52 + 1 / 2" unfolding z_def by simp
  have f: "\<lfloor>z\<rfloor> = 2 ^ 52" using lo hi by (intro floor_unique) simp_all
  have "z - of_int \<lfloor>z\<rfloor> < 1 / 2" unfolding f using hi by simp
  then have "roundEven z = 2 ^ 52" unfolding f [symmetric] by (rule roundEven_down)
  then have r: "roundEven (y / 2 powr of_int (- 52)) = 2 ^ 52" unfolding s .
  have "toDouble y = of_int (roundEven (y / 2 powr of_int (- 52))) * 2 powr of_int (- 52)"
    unfolding toDouble_pos [OF pos] u ..
  also have "\<dots> = of_int (2 ^ 52) * 2 powr of_int (- 52)" by (simp only: r)
  also have "\<dots> = 1" unfolding p by simp
  finally show ?thesis .
qed

lemma exp_ge_2: "2 \<le> exp (1::real)"
  using exp_ge_add_one_self [of "1::real"] by simp

lemma toDouble_32: "toDouble 32 = 32"
  by (rule toDouble_exact [of 32 5 "2 ^ 52"]) (simp_all add: powr_neg_numeral)

lemma toDouble_ulp: "toDouble (1 / 2 ^ 52) = 1 / 2 ^ 52"
  by (rule toDouble_exact [of "1 / 2 ^ 52" "- 52" "2 ^ 52"]) (simp_all add: powr_neg_numeral)

lemma toDouble_above_1: "toDouble (1 + 1 / 2 ^ 52) = 1 + 1 / 2 ^ 52"
  by (rule toDouble_exact [of "1 + 1 / 2 ^ 52" 0 "2 ^ 52 + 1"]) (simp_all add: powr_neg_numeral)

lemma toDouble_below_1: "toDouble (1 - 1 / 2 ^ 53) = 1 - 1 / 2 ^ 53"
  by (rule toDouble_exact [of "1 - 1 / 2 ^ 53" "- 1" "2 ^ 53 - 1"]) (simp_all add: powr_neg_numeral)

text \<open>
  The calibrated confidence of a non-negative distance lies in [0.5, 1]; it is below 1
  as long as steepness times distance is at most 32, and it is 1 from 64 on (the
  exponential is then below half of the last bit of 1).
\<close>

lemma calibrateConfidence_bounds:
  assumes "0 < k" "0 \<le> d"
  shows "1 / 2 \<le> calibrateConfidence d k \<and> calibrateConfidence d k \<le> 1"
proof -
  define x where "x = toDouble (- k * d)"
  define t where "t = toDouble (exp x)"
  define s where "s = toDouble (1 + t)"
  have "- k * d \<le> 0" using assms by simp
  then have "x \<le> toDouble 0" unfolding x_def by (rule toDouble_mono)
  then have x: "x \<le> 0" by (simp add: toDouble_zero)
  have "0 \<le> t" unfolding t_def by (rule toDouble_nonneg) simp
  moreover have "t \<le> toDouble 1" unfolding t_def using x by (intro toDouble_mono) simp
  ultimately have t: "0 \<le> t" "t \<le> 1" by (simp_all add: toDouble_1)
  have "toDouble 1 \<le> s" unfolding s_def using t(1) by (intro toDouble_mono) simp
  moreover have "s \<le> toDouble 2" unfolding s_def using t(2) by (intro toDouble_mono) simp
  ultimately have s: "1 \<le> s" "s \<le> 2" by (simp_all add: toDouble_1 toDouble_2)
  have q: "1 / 2 \<le> 1 / s" "1 / s \<le> 1" using s by (simp_all add: field_simps)
  have "toDouble (1 / 2) \<le> toDouble (1 / s)" using q(1) by (rule toDouble_mono)
  moreover have "toDouble (1 / s) \<le> toDouble 1" using q(2) by (rule toDouble_mono)
  ultimately show ?thesis
    unfolding calibrateConfidence_def x_def [symmetric] t_def [symmetric] s_def [symmetric]
    by (simp add: toDouble_1 toDouble_half)
qed

lemma calibrateConfidence_saturates:
  assumes "64 \<le> k * d"
  shows "calibrateConfidence d k = 1"
proof -
  define x where "x = toDouble (- k * d)"
  define t where "t = toDouble (exp x)"
  have "- k * d \<le> - 64" using assms by simp
  then have "x \<le> toDouble (- 64)" unfolding x_def by (rule toDouble_mono)
  then have x: "x \<le> - 64" by (simp add: toDouble_minus toDouble_64)
  have "(2::real) ^ 64 \<le> exp 1 ^ 64" using exp_ge_2 by (intro power_mono) simp_all
  also have "\<dots> = exp (64::real)" by (simp add: exp_of_nat_mult [symmetric])
  finally have e64: "(2::real) ^ 64 \<le> exp 64" .
  have "exp x \<le> exp (- 64 :: real)" using x by simp
  also have "\<dots> = 1 / exp 64" by (simp add: exp_minus field_simps)
  also have "\<dots> \<le> 1 / 2 ^ 64" using e64 by (simp add: field_simps)
  finally have ex: "exp x \<le> 1 / 2 ^ 64" .
  have t0: "0 \<le> t" unfolding t_def by (rule toDouble_nonneg) simp
  have "t \<le> toDouble (1 / 2 ^ 64)" unfolding t_def using ex by (rule toDouble_mono)
  then have t1: "t \<le> 1 / 2 ^ 64" by (simp only: toDouble_tiny)
  have "(1::real) / 2 ^ 64 < 1 / 2 ^ 53" by simp
  then have "1 + t < 1 + 1 / 2 ^ 53" using t1 by linarith
  then have "toDouble (1 + t) = 1" using t0 by (intro toDouble_near_1) simp_all
  then show ?thesis
    unfolding calibrateConfidence_def x_def [symmetric] t_def [symmetric]
    by (simp add: toDouble_1)
qed

lemma calibrateConfidence_below_1:
  assumes "k * d \<le> 32"
  shows "calibrateConfidence d k < 1"
proof -
  define x where "x = toDouble (- k * d)"
  define t where "t = toDouble (exp x)"
  define s where "s = toDouble (1 + t)"
  have "- 32 \<le> - k * d" using assms by simp
  then have "toDouble (- 32) \<le> x" unfolding x_def by (rule toDouble_mono)
  then have x: "- 32 \<le> x" by (simp add: toDouble_minus toDouble_32)
  have "exp (32::real) = exp 1 ^ 32" by (simp add: exp_of_nat_mult [symmetric])
  also have "\<dots> \<le> 3 ^ 32" by (intro power_mono exp_le) simp
  also have "\<dots> \<le> (2::real) ^ 52" by simp
  finally have e32: "exp (32::real) \<le> 2 ^ 52" .
  have "(1::real) / 2 ^ 52 \<le> 1 / exp 32" using e32 by (simp add: field_simps)
  also have "\<dots> = exp (- 32 :: real)" by (simp add: exp_minus field_simps)
  also have "\<dots> \<le> exp x" using x by simp
  finally have "toDouble (1 / 2 ^ 52) \<le> t" unfolding t_def by (rule toDouble_mono)
  then have t: "1 / 2 ^ 52 \<le> t" by (simp only: toDouble_ulp)
  have "1 + 1 / 2 ^ 52 \<le> 1 + t" using t by simp
  then have "toDouble (1 + 1 / 2 ^ 52) \<le> s" unfolding s_def by (rule toDouble_mono)
  then have s: "1 + 1 / 2 ^ 52 \<le> s" by (simp only: toDouble_above_1)
  have "1 / s \<le> 1 / (1 + 1 / 2 ^ 52)" using s by (intro divide_left_mono) simp_all
  also have "\<dots> \<le> 1 - 1 / 2 ^ 53" by simp
  finally have "toDouble (1 / s) \<le> toDouble (1 - 1 / 2 ^ 53)" by (rule toDouble_mono)
  then have "toDouble (1 / s) \<le> 1 - 1 / 2 ^ 53" by (simp only: toDouble_below_1)
  then have "toDouble (1 / s) < 1" by simp
  then show ?thesis
    unfolding calibrateConfidence_def x_def [symmetric] t_def [symmetric] s_def [symmetric] .
qed

lemma tierByBoundaries_distance_nonneg: "0 \<le> snd (tierByBoundaries ws cfg)"
  by (simp add: tierByBoundaries_def)

lemma two_matches:
  assumes "a \<in> set xs" "b \<in> set xs" "a \<noteq> b" "P a" "P b"
  shows "2 \<le> length (filter P xs)"
proof -
  have "{a, b} \<subseteq> set (filter P xs)" using assms by simp
  then have "card {a, b} \<le> card (set (filter P xs))" by (intro card_mono) simp_all
  also have "\<dots> \<le> length (filter P xs)" by (rule card_length)
  finally show ?thesis using assms(3) by simp
qed

text \<open>The two branches of \<open>classifyByRules\<close>.\<close>

lemma classify_override:
  "2 \<le> length (keywordMatches (toLowerCase prompt) (reasoningKeywords cfg)) \<Longrightarrow>
   classifyByRules prompt sys est cfg =
     (let text = toLowerCase ((case sys of None \<Rightarrow> [] | Some s \<Rightarrow> s) @ '' '' @ prompt);
          dims = dimensions prompt text (toLowerCase prompt) est cfg;
          ws = weightedSum (dimensionWeights cfg) dims
      in \<lparr> score = ws, sr_tier = Some REASONING,
           sr_confidence = max (calibrateConfidence (max ws 0.3) (confidenceSteepness cfg)) 0.85,
           signals = List.map_filter signal dims \<rparr>)"
  by (simp add: classifyByRules_def Let_def)

lemma classify_boundaries:
  "\<not> 2 \<le> length (keywordMatches (toLowerCase prompt) (reasoningKeywords cfg)) \<Longrightarrow>
   classifyByRules prompt sys est cfg =
     (let text = toLowerCase ((case sys of None \<Rightarrow> [] | Some s \<Rightarrow> s) @ '' '' @ prompt);
          dims = dimensions prompt text (toLowerCase prompt) est cfg;
          ws = weightedSum (dimensionWeights cfg) dims;
          conf = calibrateConfidence (snd (tierByBoundaries ws cfg)) (confidenceSteepness cfg)
      in \<lparr> score = ws,
           sr_tier = (if conf < confidenceThreshold cfg then None
                      else Some (fst (tierByBoundaries ws cfg))),
           sr_confidence = conf,
           signals = List.map_filter signal dims \<rparr>)"
  by (simp add: classifyByRules_def Let_def split: prod.splits)

text \<open>The prompt "Prove the theorem" under the default configuration: two reasoning
  keywords, and a weighted score of 0.1 (reasoning markers 0.18, token count - 0.08).\<close>

lemma example_matches:
  "keywordMatches (toLowerCase ''Prove the theorem'') (reasoningKeywords defaultScoring)
    = [''prove'', ''theorem'']"
  by (simp add: keywordMatches_zip defaultScoring_def char_eval)

lemma example_score:
  "weightedSum defaultWeights
     (dimensions ''Prove the theorem'' (toLowerCase '' Prove the theorem'')
        (toLowerCase ''Prove the theorem'') 5 defaultScoring) = 0.1"
  by (simp add: weightedSum_def defaultWeights_def dimensions_def scoreTokenCount_def
      scoreKeywordMatch_def keywordMatches_zip scoreMultiStep_def scoreQuestionComplexity_def
      re_firstThen_def re_stepDigit_def re_digitDotSpace_def defaultScoring_def char_eval)

lemma sigmoid_below_099: "calibrateConfidence (max (1 / 10) 0.3) 12 < 0.99"
proof -
  define x where "x = toDouble (- 12 * max (1 / 10) 0.3)"
  define t where "t = toDouble (exp x)"
  define s where "s = toDouble (1 + t)"
  have "(- 4 :: real) \<le> - 12 * max (1 / 10) 0.3" by simp
  then have "toDouble (- 4) \<le> x" unfolding x_def by (rule toDouble_mono)
  then have x: "- 4 \<le> x" by (simp add: toDouble_minus toDouble_4)
  have "exp (4::real) = exp 1 ^ 4" by (simp add: exp_of_nat_mult [symmetric])
  also have "\<dots> \<le> 3 ^ 4" by (intro power_mono exp_le) simp
  finally have e4: "exp (4::real) \<le> 81" by simp
  have "(3::real) / 256 \<le> 1 / 81" by simp
  also have "\<dots> \<le> 1 / exp 4" using e4 by (simp add: field_simps)
  also have "\<dots> = exp (- 4 :: real)" by (simp add: exp_minus field_simps)
  also have "\<dots> \<le> exp x" using x by simp
  finally have "toDouble (3 / 256) \<le> t" unfolding t_def by (rule toDouble_mono)
  then have t: "3 / 256 \<le> t" by (simp only: toDouble_3_256)
  have "(259::real) / 256 \<le> 1 + t" using t by simp
  then have "toDouble (259 / 256) \<le> s" unfolding s_def by (rule toDouble_mono)
  then have s: "259 / 256 \<le> s" by (simp only: toDouble_259_256)
  have "1 / s \<le> 1 / (259 / 256)" using s by (intro divide_left_mono) simp_all
  also have "\<dots> \<le> 1013 / 1024" by simp
  finally have "toDouble (1 / s) \<le> toDouble (1013 / 1024)" by (rule toDouble_mono)
  then have "toDouble (1 / s) \<le> 1013 / 1024" by (simp only: toDouble_1013_1024)
  then have "toDouble (1 / s) < 0.99" by simp
  then show ?thesis
    unfolding calibrateConfidence_def x_def [symmetric] t_def [symmetric] s_def [symmetric] .
qed

text \<open>
  Claim C3. When two distinct reasoning keywords of the configuration occur, after
  lower-casing of both sides, in the user prompt, \<open>classifyByRules\<close> returns the tier
  REASONING with a confidence of at least 0.85, whatever the system prompt, the token
  estimate, the weighted score and the tier boundaries are.
\<close>

theorem C3_reasoning_override:
  assumes "k1 \<in> set (reasoningKeywords cfg)" and "k2 \<in> set (reasoningKeywords cfg)"
    and "k1 \<noteq> k2"
    and "includesStr (toLowerCase prompt) (toLowerCase k1)"
    and "includesStr (toLowerCase prompt) (toLowerCase k2)"
  shows "sr_tier (classifyByRules prompt sys est cfg) = Some REASONING
       \<and> 0.85 \<le> sr_confidence (classifyByRules prompt sys est cfg)"
proof -
  have "2 \<le> length (keywordMatches (toLowerCase prompt) (reasoningKeywords cfg))"
    unfolding keywordMatches_def using assms by (intro two_matches [of k1 _ k2]) simp_all
  then show ?thesis by (simp add: classify_override Let_def)
qed

theorem C3_reasoning_override_witness:
  "''prove'' \<in> set (reasoningKeywords defaultScoring)
   \<and> ''theorem'' \<in> set (reasoningKeywords defaultScoring)
   \<and> ''prove'' \<noteq> ''theorem''
   \<and> includesStr (toLowerCase ''Prove the theorem'') (toLowerCase ''prove'')
   \<and> includesStr (toLowerCase ''Prove the theorem'') (toLowerCase ''theorem'')
   \<and> sr_tier (classifyByRules ''Prove the theorem'' (Some ''You are a helpful assistant'') 5
                defaultScoring) = Some REASONING
   \<and> 0.85 \<le> sr_confidence (classifyByRules ''Prove the theorem''
                 (Some ''You are a helpful assistant'') 5 defaultScoring)"
proof -
  have h1: "''prove'' \<in> set (reasoningKeywords defaultScoring)"
    and h2: "''theorem'' \<in> set (reasoningKeywords defaultScoring)"
    by (simp_all add: defaultScoring_def)
  have h3: "''prove'' \<noteq> ''theorem''" by simp
  have h4: "includesStr (toLowerCase ''Prove the theorem'') (toLowerCase ''prove'')"
    and h5: "includesStr (toLowerCase ''Prove the theorem'') (toLowerCase ''theorem'')"
    by (simp_all add: char_eval)
  show ?thesis
    using C3_reasoning_override [OF h1 h2 h3 h4 h5, of "Some ''You are a helpful assistant''" 5]
      h1 h2 h4 h5 by simp
qed

text \<open>
  Claim C8, as stated: the tier is null exactly when the confidence is below the
  configured threshold. With the threshold raised to 0.99 (everything else as in the
  default configuration), "Prove the theorem" is classified REASONING by the override
  with a confidence below the threshold.
\<close>

theorem C8_counterexample:
  "sr_tier (classifyByRules ''Prove the theorem'' None 5
              (defaultScoring\<lparr> confidenceThreshold := 0.99 \<rparr>)) = Some REASONING
   \<and> sr_confidence (classifyByRules ''Prove the theorem'' None 5
              (defaultScoring\<lparr> confidenceThreshold := 0.99 \<rparr>))
       < confidenceThreshold (defaultScoring\<lparr> confidenceThreshold := 0.99 \<rparr>)"
proof -
  let ?cfg = "defaultScoring\<lparr> confidenceThreshold := 0.99 \<rparr>"
  have kw: "reasoningKeywords ?cfg = reasoningKeywords defaultScoring" by simp
  have two: "2 \<le> length (keywordMatches (toLowerCase ''Prove the theorem'') (reasoningKeywords ?cfg))"
    unfolding kw example_matches by simp
  have dims: "\<And>p t u. dimensions p t u 5 ?cfg = dimensions p t u 5 defaultScoring"
    by (simp add: dimensions_def)
  have w: "dimensionWeights ?cfg = defaultWeights" by (simp add: defaultScoring_def)
  have steep: "confidenceSteepness ?cfg = 12" by (simp add: defaultScoring_def)
  have "sr_confidence (classifyByRules ''Prove the theorem'' None 5 ?cfg)
      = max (calibrateConfidence
               (max (weightedSum (dimensionWeights ?cfg)
                  (dimensions ''Prove the theorem'' (toLowerCase '' Prove the theorem'')
                     (toLowerCase ''Prove the theorem'') 5 ?cfg)) 0.3)
               (confidenceSteepness ?cfg)) 0.85"
    using two by (simp add: classify_override Let_def)
  then have conf: "sr_confidence (classifyByRules ''Prove the theorem'' None 5 ?cfg)
      = max (calibrateConfidence (max (1 / 10) 0.3) 12) 0.85"
    unfolding dims w steep example_score by simp
  have tier: "sr_tier (classifyByRules ''Prove the theorem'' None 5 ?cfg) = Some REASONING"
    using two by (simp add: classify_override Let_def)
  show ?thesis using conf tier sigmoid_below_099 by simp
qed

text \<open>
  Claim C8, amended. The tier is null exactly when fewer than two reasoning keywords
  occur in the user prompt and the calibrated confidence is below the threshold; a
  result of the reasoning override carries the tier REASONING whatever the threshold.
\<close>

theorem C8_null_tier_iff:
  "sr_tier (classifyByRules prompt sys est cfg) = None \<longleftrightarrow>
     (length (keywordMatches (toLowerCase prompt) (reasoningKeywords cfg)) < 2
      \<and> sr_confidence (classifyByRules prompt sys est cfg) < confidenceThreshold cfg)"
proof (cases "2 \<le> length (keywordMatches (toLowerCase prompt) (reasoningKeywords cfg))")
  case True
  then show ?thesis by (simp add: classify_override Let_def)
next
  case False
  then show ?thesis by (simp add: classify_boundaries Let_def)
qed

theorem C8_null_tier_iff_witness:
  "sr_tier (classifyByRules ''Prove the theorem'' None 5 defaultScoring) \<noteq> None
   \<and> \<not> length (keywordMatches (toLowerCase ''Prove the theorem'')
                 (reasoningKeywords defaultScoring)) < 2"
  using C8_null_tier_iff [of "''Prove the theorem''" None 5 defaultScoring] example_matches
  by simp

text \<open>
  Claim C10, as stated: the confidence lies in [0.5, 1). With the steepness raised to
  1000 (everything else as in the default configuration, whose boundaries are
  ordered), "Prove the theorem" is classified with a distance of 0.3: the exponential
  of - 300 is far below the last bit of 1, the sum is rounded to 1, and the confidence
  is 1.
\<close>

theorem C10_counterexample:
  "0 < confidenceSteepness (defaultScoring\<lparr> confidenceSteepness := 1000 \<rparr>)
   \<and> simpleMedium (defaultScoring\<lparr> confidenceSteepness := 1000 \<rparr>)
       < mediumComplex (defaultScoring\<lparr> confidenceSteepness := 1000 \<rparr>)
   \<and> mediumComplex (defaultScoring\<lparr> confidenceSteepness := 1000 \<rparr>)
       < complexReasoning (defaultScoring\<lparr> confidenceSteepness := 1000 \<rparr>)
   \<and> sr_confidence (classifyByRules ''Prove the theorem'' None 5
         (defaultScoring\<lparr> confidenceSteepness := 1000 \<rparr>)) = 1"
proof -
  let ?cfg = "defaultScoring\<lparr> confidenceSteepness := 1000 \<rparr>"
  have kw: "reasoningKeywords ?cfg = reasoningKeywords defaultScoring" by simp
  have two: "2 \<le> length (keywordMatches (toLowerCase ''Prove the theorem'') (reasoningKeywords ?cfg))"
    unfolding kw example_matches by simp
  have dims: "\<And>p t u. dimensions p t u 5 ?cfg = dimensions p t u 5 defaultScoring"
    by (simp add: dimensions_def)
  have w: "dimensionWeights ?cfg = defaultWeights" by (simp add: defaultScoring_def)
  have steep: "confidenceSteepness ?cfg = 1000" by simp
  have "sr_confidence (classifyByRules ''Prove the theorem'' None 5 ?cfg)
      = max (calibrateConfidence
               (max (weightedSum (dimensionWeights ?cfg)
                  (dimensions ''Prove the theorem'' (toLowerCase '' Prove the theorem'')
                     (toLowerCase ''Prove the theorem'') 5 ?cfg)) 0.3)
               (confidenceSteepness ?cfg)) 0.85"
    using two by (simp add: classify_override Let_def)
  then have conf: "sr_confidence (classifyByRules ''Prove the theorem'' None 5 ?cfg)
      = max (calibrateConfidence (max (1 / 10) 0.3) 1000) 0.85"
    unfolding dims w steep example_score by simp
  have "calibrateConfidence (max (1 / 10) 0.3) 1000 = 1"
    by (rule calibrateConfidence_saturates) simp
  then have one: "sr_confidence (classifyByRules ''Prove the theorem'' None 5 ?cfg) = 1"
    unfolding conf by simp
  have bounds: "simpleMedium ?cfg < mediumComplex ?cfg \<and> mediumComplex ?cfg < complexReasoning ?cfg"
    by (simp add: defaultScoring_def)
  show ?thesis using one bounds by simp
qed

text \<open>
  Claim C10, amended. With a positive steepness the confidence returned by
  \<open>classifyByRules\<close> lies in [0.5, 1], the value 1 included: the distance to the
  nearest boundary of the assigned range is never negative, so the calibration never
  yields a value below 0.5, and the override branch returns at least 0.85. The
  confidence is below 1 as long as the steepness times the distance is at most 32.
  (The order of the boundaries is not needed: each branch of the mapping is entered
  only on the side of its boundaries where the distance is non-negative.)
\<close>

theorem C10_confidence_range:
  assumes "0 < confidenceSteepness cfg"
  shows "1 / 2 \<le> sr_confidence (classifyByRules prompt sys est cfg)
       \<and> sr_confidence (classifyByRules prompt sys est cfg) \<le> 1
       \<and> 0 \<le> snd (tierByBoundaries (score (classifyByRules prompt sys est cfg)) cfg)
       \<and> (2 \<le> length (keywordMatches (toLowerCase prompt) (reasoningKeywords cfg)) \<longrightarrow>
            0.85 \<le> sr_confidence (classifyByRules prompt sys est cfg))
       \<and> (confidenceSteepness cfg * max (score (classifyByRules prompt sys est cfg)) 0.3 \<le> 32
            \<and> confidenceSteepness cfg
                * snd (tierByBoundaries (score (classifyByRules prompt sys est cfg)) cfg) \<le> 32
            \<longrightarrow> sr_confidence (classifyByRules prompt sys est cfg) < 1)"
proof (cases "2 \<le> length (keywordMatches (toLowerCase prompt) (reasoningKeywords cfg))")
  case True
  define ws where "ws = score (classifyByRules prompt sys est cfg)"
  have c: "sr_confidence (classifyByRules prompt sys est cfg)
      = max (calibrateConfidence (max ws 0.3) (confidenceSteepness cfg)) 0.85"
    unfolding ws_def using True by (simp add: classify_override Let_def)
  have "0 \<le> max ws 0.3" by simp
  from calibrateConfidence_bounds [OF assms this]
  have range: "1 / 2 \<le> sr_confidence (classifyByRules prompt sys est cfg)
      \<and> sr_confidence (classifyByRules prompt sys est cfg) \<le> 1
      \<and> 0.85 \<le> sr_confidence (classifyByRules prompt sys est cfg)"
    using c by auto
  have strict: "sr_confidence (classifyByRules prompt sys est cfg) < 1"
    if "confidenceSteepness cfg * max ws 0.3 \<le> 32"
    using calibrateConfidence_below_1 [OF that] c by simp
  show ?thesis
    using range strict tierByBoundaries_distance_nonneg unfolding ws_def by blast
next
  case False
  define ws where "ws = score (classifyByRules prompt sys est cfg)"
  have c: "sr_confidence (classifyByRules prompt sys est cfg)
      = calibrateConfidence (snd (tierByBoundaries ws cfg)) (confidenceSteepness cfg)"
    unfolding ws_def using False by (simp add: classify_boundaries Let_def)
  from calibrateConfidence_bounds [OF assms tierByBoundaries_distance_nonneg [of ws cfg]]
  have range: "1 / 2 \<le> sr_confidence (classifyByRules prompt sys est cfg)
      \<and> sr_confidence (classifyByRules prompt sys est cfg) \<le> 1"
    using c by simp
  have strict: "sr_confidence (classifyByRules prompt sys est cfg) < 1"
    if "confidenceSteepness cfg * snd (tierByBoundaries ws cfg) \<le> 32"
    using calibrateConfidence_below_1 [OF that] c by simp
  show ?thesis
    using range strict False tierByBoundaries_distance_nonneg unfolding ws_def by blast
qed

text \<open>
  "Prove the theorem" under the default configuration (steepness 12, score 0.1): the
  confidence is at least 0.85 and below 1.
\<close>

theorem C10_confidence_range_witness:
  "0 < confidenceSteepness defaultScoring
   \<and> 2 \<le> length (keywordMatches (toLowerCase ''Prove the theorem'')
                 (reasoningKeywords defaultScoring))
   \<and> confidenceSteepness defaultScoring
        * max (score (classifyByRules ''Prove the theorem'' None 5 defaultScoring)) 0.3 \<le> 32
   \<and> confidenceSteepness defaultScoring
        * snd (tierByBoundaries (score (classifyByRules ''Prove the theorem'' None 5 defaultScoring))
                 defaultScoring) \<le> 32
   \<and> 0.85 \<le> sr_confidence (classifyByRules ''Prove the theorem'' None 5 defaultScoring)
   \<and> sr_confidence (classifyByRules ''Prove the theorem'' None 5 defaultScoring) < 1"
proof -
  have h: "0 < confidenceSteepness defaultScoring" by (simp add: defaultScoring_def)
  have two: "2 \<le> length (keywordMatches (toLowerCase ''Prove the theorem'')
                 (reasoningKeywords defaultScoring))"
    unfolding example_matches by simp
  have w: "dimensionWeights defaultScoring = defaultWeights" by (simp add: defaultScoring_def)
  have "score (classifyByRules ''Prove the theorem'' None 5 defaultScoring)
      = weightedSum (dimensionWeights defaultScoring)
          (dimensions ''Prove the theorem'' (toLowerCase '' Prove the theorem'')
             (toLowerCase ''Prove the theorem'') 5 defaultScoring)"
    using two by (simp add: classify_override Let_def)
  then have sc: "score (classifyByRules ''Prove the theorem'' None 5 defaultScoring) = 1 / 10"
    unfolding w example_score by simp
  have steep: "confidenceSteepness defaultScoring = 12" by (simp add: defaultScoring_def)
  have h1: "confidenceSteepness defaultScoring
        * max (score (classifyByRules ''Prove the theorem'' None 5 defaultScoring)) 0.3 \<le> 32"
    unfolding sc steep by simp
  have h2: "confidenceSteepness defaultScoring
        * snd (tierByBoundaries (score (classifyByRules ''Prove the theorem'' None 5 defaultScoring))
                 defaultScoring) \<le> 32"
    unfolding sc steep by (simp add: tierByBoundaries_def defaultScoring_def)
  show ?thesis
    using C10_confidence_range [OF h, of "''Prove the theorem''" None 5] h two h1 h2
    by blast
qed

section \<open>Properties of the router entry point\<close>

text \<open>
  Claim C4. When the estimated token count of system prompt and prompt exceeds
  \<open>maxTokensForceComplex\<close>, \<open>route\<close> returns the decision of \<open>selectModel\<close> for the
  tier COMPLEX with confidence 0.95; the prompt enters only through its length, and
  the scoring configuration of the classifier does not enter at all.
\<close>

theorem C4_large_context_override:
  assumes "tokensOf ((case sys of None \<Rightarrow> [] | Some s \<Rightarrow> s) @ '' '' @ p)
             > maxTokensForceComplex (overrides (config options))"
  shows "route p sys maxOut options =
           selectModel COMPLEX 0.95 Rules
             [Str ''Input exceeds '', Num (maxTokensForceComplex (overrides (config options))),
              Str '' tokens'']
             (tiers (config options)) (modelPricing options)
             (tokensOf ((case sys of None \<Rightarrow> [] | Some s \<Rightarrow> s) @ '' '' @ p)) maxOut
       \<and> tier (route p sys maxOut options) = COMPLEX
       \<and> confidence (route p sys maxOut options) = 0.95
       \<and> route p sys maxOut (options\<lparr> config := (config options)\<lparr> scoring := sc \<rparr> \<rparr>)
           = route p sys maxOut options"
  using assms by (simp add: route_def Let_def selectModel_def)

theorem C4_large_context_override_witness:
  "tokensOf ((case None of None \<Rightarrow> [] | Some s \<Rightarrow> s) @ '' '' @ replicate 400000 (CHR ''x''))
     > maxTokensForceComplex (overrides (config defaultOptions))
   \<and> tier (route (replicate 400000 (CHR ''x'')) None 4096 defaultOptions) = COMPLEX
   \<and> confidence (route (replicate 400000 (CHR ''x'')) None 4096 defaultOptions) = 0.95"
proof -
  have h: "tokensOf ((case None of None \<Rightarrow> [] | Some s \<Rightarrow> s) @ '' '' @ replicate 400000 (CHR ''x''))
     > maxTokensForceComplex (overrides (config defaultOptions))"
    by (simp add: tokensOf_div defaultOptions_def defaultConfig_def)
  show ?thesis
    using C4_large_context_override [OF h, of 4096 defaultScoring] h by blast
qed

section \<open>Properties of the selector\<close>

lemma selectModel_costEstimate:
  "costEstimate (selectModel t c m r tcs mp i out) = priceOf (mp (primary (tcs t))) i out"
  by (simp add: selectModel_def priceOf_def Let_def split: option.splits)

lemma selectModel_baselineCost:
  "baselineCost (selectModel t c m r tcs mp i out) = priceOf (mp ''anthropic/claude-opus-4.6'') i out"
  by (simp add: selectModel_def priceOf_def Let_def split: option.splits)

lemma selectModel_savings:
  "savings (selectModel t c m r tcs mp i out) =
    (let b = baselineCost (selectModel t c m r tcs mp i out);
         k = costEstimate (selectModel t c m r tcs mp i out)
     in if b > 0 then max 0 ((b - k) / b) else 0)"
  by (simp add: selectModel_def Let_def)

lemma priceOf_nonneg:
  "nonnegPrices p \<Longrightarrow> 0 \<le> i \<Longrightarrow> 0 \<le> out \<Longrightarrow> 0 \<le> priceOf p i out"
  by (auto simp: priceOf_def nonnegPrices_def split: option.splits)

lemma savings_formula_bounds:
  fixes b k :: real
  assumes "0 \<le> k"
  shows "0 \<le> (if b > 0 then max 0 ((b - k) / b) else 0)
       \<and> (if b > 0 then max 0 ((b - k) / b) else 0) \<le> 1"
proof (cases "b > 0")
  case True
  then have "(b - k) / b \<le> 1" using assms by (simp add: field_simps)
  then show ?thesis using True by simp
next
  case False
  then show ?thesis by simp
qed

text \<open>
  Claim C7. \<open>selectModel\<close> returns the primary model of the tier; its cost estimate is
  (input tokens / 1e6) * input price + (max output tokens / 1e6) * output price of that
  model, and 0 when the model is not in the pricing map (\<open>priceOf\<close>); the baseline
  cost is the same formula for the fixed reference model under the same token counts;
  savings are max 0 ((baseline - cost) / baseline) when the baseline is positive and 0
  otherwise, so 0 when the baseline is 0; and savings lie in [0, 1] when the prices of
  the selected model and the token counts are non-negative.
\<close>

theorem C7_selectModel_cost_and_savings:
  "(let d = selectModel t c m r tcs mp i out;
        pm = mp (primary (tcs t))
    in model d = primary (tcs t) \<and> tier d = t \<and> confidence d = c
     \<and> costEstimate d = priceOf pm i out
     \<and> baselineCost d = priceOf (mp ''anthropic/claude-opus-4.6'') i out
     \<and> savings d = (if baselineCost d > 0
                      then max 0 ((baselineCost d - costEstimate d) / baselineCost d) else 0)
     \<and> (nonnegPrices pm \<and> 0 \<le> i \<and> 0 \<le> out \<longrightarrow> 0 \<le> savings d \<and> savings d \<le> 1))"
proof -
  define d where "d = selectModel t c m r tcs mp i out"
  have cost: "costEstimate d = priceOf (mp (primary (tcs t))) i out"
    unfolding d_def by (rule selectModel_costEstimate)
  have base: "baselineCost d = priceOf (mp ''anthropic/claude-opus-4.6'') i out"
    unfolding d_def by (rule selectModel_baselineCost)
  have sav: "savings d =
      (if baselineCost d > 0 then max 0 ((baselineCost d - costEstimate d) / baselineCost d) else 0)"
    unfolding d_def using selectModel_savings [of t c m r tcs mp i out] by (simp add: Let_def)
  have fields: "model d = primary (tcs t) \<and> tier d = t \<and> confidence d = c"
    unfolding d_def by (simp add: selectModel_def Let_def)
  have bounds: "nonnegPrices (mp (primary (tcs t))) \<and> 0 \<le> i \<and> 0 \<le> out
      \<longrightarrow> 0 \<le> savings d \<and> savings d \<le> 1"
  proof
    assume h: "nonnegPrices (mp (primary (tcs t))) \<and> 0 \<le> i \<and> 0 \<le> out"
    then have "0 \<le> costEstimate d"
      using cost priceOf_nonneg [of "mp (primary (tcs t))" i out] by simp
    then show "0 \<le> savings d \<and> savings d \<le> 1"
      using savings_formula_bounds [of "costEstimate d" "baselineCost d"] sav by simp
  qed
  have "model d = primary (tcs t) \<and> tier d = t \<and> confidence d = c
     \<and> costEstimate d = priceOf (mp (primary (tcs t))) i out
     \<and> baselineCost d = priceOf (mp ''anthropic/claude-opus-4.6'') i out
     \<and> savings d = (if baselineCost d > 0
                      then max 0 ((baselineCost d - costEstimate d) / baselineCost d) else 0)
     \<and> (nonnegPrices (mp (primary (tcs t))) \<and> 0 \<le> i \<and> 0 \<le> out
          \<longrightarrow> 0 \<le> savings d \<and> savings d \<le> 1)"
    using cost base sav fields bounds by simp
  then show ?thesis unfolding d_def Let_def .
qed

text \<open>The COMPLEX tier of the default configuration, 1000 input and 2000 output tokens:
  the estimate is 0.033, the baseline 0.055, and 40 per cent are saved.\<close>

theorem C7_selectModel_witness:
  "nonnegPrices (catalogPricing (primary (defaultTiers COMPLEX))) \<and> (0::real) \<le> 1000
   \<and> (0::real) \<le> 2000
   \<and> costEstimate (selectModel COMPLEX 0.95 Rules [] defaultTiers catalogPricing 1000 2000) = 0.033
   \<and> baselineCost (selectModel COMPLEX 0.95 Rules [] defaultTiers catalogPricing 1000 2000) = 0.055
   \<and> savings (selectModel COMPLEX 0.95 Rules [] defaultTiers catalogPricing 1000 2000) = 0.4
   \<and> 0 \<le> savings (selectModel COMPLEX 0.95 Rules [] defaultTiers catalogPricing 1000 2000)
   \<and> savings (selectModel COMPLEX 0.95 Rules [] defaultTiers catalogPricing 1000 2000) \<le> 1"
proof -
  let ?d = "selectModel COMPLEX 0.95 Rules [] defaultTiers catalogPricing 1000 2000"
  let ?pm = "catalogPricing (primary (defaultTiers COMPLEX))"
  have pm: "?pm = Some \<lparr> inputPrice = 3, outputPrice = 15 \<rparr>"
    by (simp add: catalogPricing_def defaultTiers_def)
  have opus: "catalogPricing ''anthropic/claude-opus-4.6'' = Some \<lparr> inputPrice = 5, outputPrice = 25 \<rparr>"
    by (simp add: catalogPricing_def)
  have h: "nonnegPrices ?pm \<and> (0::real) \<le> 1000 \<and> (0::real) \<le> 2000"
    using pm by (simp add: nonnegPrices_def)
  note t = C7_selectModel_cost_and_savings
    [of COMPLEX "0.95" Rules "[]" defaultTiers catalogPricing 1000 2000, unfolded Let_def]
  from t have c1: "costEstimate ?d = priceOf ?pm 1000 2000" by blast
  from t have b1: "baselineCost ?d = priceOf (catalogPricing ''anthropic/claude-opus-4.6'') 1000 2000"
    by blast
  from t have s1: "savings ?d = (if baselineCost ?d > 0
      then max 0 ((baselineCost ?d - costEstimate ?d) / baselineCost ?d) else 0)" by blast
  from t h have r1: "0 \<le> savings ?d \<and> savings ?d \<le> 1" by blast
  have cost: "costEstimate ?d = 0.033" unfolding c1 pm by (simp add: priceOf_def)
  have base: "baselineCost ?d = 0.055" unfolding b1 opus by (simp add: priceOf_def)
  have sav: "savings ?d = 0.4" unfolding s1 cost base by simp
  show ?thesis using h cost base sav r1 by blast
qed

section \<open>Properties of the directive extraction\<close>












section \<open>Properties of the deduplicator\<close>

lemma fold_settle:
  "distinct ps \<Longrightarrow> \<forall>p \<in> set ps. promiseValue d p = None \<Longrightarrow>
   fold (settle v) ps d = d\<lparr> settled := settled d @ map (\<lambda>p. (p, v)) ps \<rparr>"
proof (induction ps arbitrary: d)
  case Nil
  then show ?case by simp
next
  case (Cons p ps)
  let ?d' = "d\<lparr> settled := settled d @ [(p, v)] \<rparr>"
  have s: "settle v p d = ?d'" using Cons.prems by (simp add: settle_def)
  have b: "\<forall>q \<in> set ps. promiseValue ?d' q = None"
    using Cons.prems by (auto simp: promiseValue_def map_add_def split: option.splits)
  have a: "distinct ps" using Cons.prems by simp
  show ?case using Cons.IH [OF a b] s by simp
qed

lemma joinN_spec:
  "inflight d key = Some e \<Longrightarrow> joinN n key d = (ps, d1) \<Longrightarrow>
   ps = map (\<lambda>i. nextPromise d + 2 * i) [0..<n]
   \<and> (\<exists>e1. inflight d1 key = Some e1
          \<and> resolve e1 = resolve e @ concat (map (\<lambda>p. [p, Suc p]) ps)
          \<and> waiters e1 = waiters e @ map Suc ps)
   \<and> (\<forall>k. k \<noteq> key \<longrightarrow> inflight d1 k = inflight d k)
   \<and> completed d1 = completed d \<and> ttlMs d1 = ttlMs d \<and> settled d1 = settled d
   \<and> nextPromise d1 = nextPromise d + 2 * n"
proof (induction n arbitrary: d e ps d1)
  case 0
  then show ?case by simp
next
  case (Suc n)
  let ?p = "nextPromise d"
  let ?e' = "\<lparr> resolve = resolve e @ [?p, Suc ?p], waiters = waiters e @ [Suc ?p] \<rparr>"
  let ?d' = "d\<lparr> inflight := (inflight d)(key \<mapsto> ?e'), nextPromise := ?p + 2 \<rparr>"
  have g: "getInflight key d = (Some ?p, ?d')"
    using Suc.prems(1) by (simp add: getInflight_def Let_def)
  obtain qs d2 where j: "joinN n key ?d' = (qs, d2)" by (cases "joinN n key ?d'")
  have ps: "ps = ?p # qs" and d1: "d1 = d2" using Suc.prems(2) g j by simp_all
  have i: "inflight ?d' key = Some ?e'" by simp
  note ih = Suc.IH [OF i j]
  from ih have qs: "qs = map (\<lambda>i. ?p + 2 + 2 * i) [0..<n]" by simp
  have "map (\<lambda>i. ?p + 2 * i) [0..<Suc n] = ?p # map (\<lambda>i. ?p + 2 + 2 * i) [0..<n]"
    by (simp add: upt_conv_Cons map_Suc_upt [symmetric] del: upt_Suc)
  then have r1: "ps = map (\<lambda>i. ?p + 2 * i) [0..<Suc n]" using ps qs by simp
  from ih obtain e1 where e1: "inflight d2 key = Some e1"
      "resolve e1 = resolve ?e' @ concat (map (\<lambda>p. [p, Suc p]) qs)"
      "waiters e1 = waiters ?e' @ map Suc qs" by blast
  have r2: "\<exists>e1. inflight d1 key = Some e1
          \<and> resolve e1 = resolve e @ concat (map (\<lambda>p. [p, Suc p]) ps)
          \<and> waiters e1 = waiters e @ map Suc ps"
    using e1 d1 ps by simp
  have r3: "\<forall>k. k \<noteq> key \<longrightarrow> inflight d1 k = inflight d k" using ih d1 by simp
  have r4: "completed d1 = completed d \<and> ttlMs d1 = ttlMs d \<and> settled d1 = settled d
      \<and> nextPromise d1 = nextPromise d + 2 * Suc n" using ih d1 by simp
  show ?case using r1 r2 r3 r4 by blast
qed

lemma joined_distinct:
  "distinct (concat (map (\<lambda>p. [p, Suc p]) (map (\<lambda>i. (c::nat) + 2 * i) [0..<n])))"
proof (induction n)
  case 0
  then show ?case by simp
next
  case (Suc n)
  have "\<And>x. x \<in> set (concat (map (\<lambda>p. [p, Suc p]) (map (\<lambda>i. c + 2 * i) [0..<n]))) \<Longrightarrow> x < c + 2 * n"
    by auto
  then show ?case using Suc by fastforce
qed

lemma joined_fresh:
  "x \<in> set (concat (map (\<lambda>p. [p, Suc p]) (map (\<lambda>i. (c::nat) + 2 * i) [0..<n]))) \<Longrightarrow> c \<le> x"
  by auto

lemma fold_settle_fields:
  "inflight (fold (settle v) ps d) = inflight d"
  "completed (fold (settle v) ps d) = completed d"
  "ttlMs (fold (settle v) ps d) = ttlMs d"
  "nextPromise (fold (settle v) ps d) = nextPromise d"
  by (induction ps arbitrary: d; simp add: settle_def)+

lemma complete_inflight:
  "inflight (complete key result now d) = (inflight d)(key := None)"
  by (auto simp: complete_def prune_def Let_def fold_settle_fields split: option.splits)

lemma prune_completed_cong:
  "completed d' = completed d \<Longrightarrow> ttlMs d' = ttlMs d \<Longrightarrow>
   completed (prune now d') = completed (prune now d)"
  by (simp add: prune_def fun_eq_iff split: option.splits)

lemma complete_completed:
  "completed (complete key result now d) =
     completed (prune now (if length (body result) \<le> MAX_BODY_SIZE
                           then d\<lparr> completed := (completed d)(key \<mapsto> result) \<rparr> else d))"
proof -
  define d1 where "d1 = (if length (body result) \<le> MAX_BODY_SIZE
                           then d\<lparr> completed := (completed d)(key \<mapsto> result) \<rparr> else d)"
  define d2 where "d2 = (case inflight d1 key of
                 None \<Rightarrow> d1
               | Some entry \<Rightarrow>
                   (fold (settle result) (resolve entry) d1)
                     \<lparr> inflight := (inflight d1)(key := None) \<rparr>)"
  have "completed d2 = completed d1" "ttlMs d2 = ttlMs d1"
    unfolding d2_def by (simp_all add: fold_settle_fields split: option.splits)
  then have "completed (prune now d2) = completed (prune now d1)"
    by (rule prune_completed_cong)
  moreover have "complete key result now d = prune now d2"
    unfolding complete_def d2_def d1_def Let_def ..
  ultimately show ?thesis unfolding d1_def by simp
qed

lemma complete_other_fields:
  "ttlMs (complete key result now d) = ttlMs d"
  "nextPromise (complete key result now d) = nextPromise d"
  by (simp_all add: complete_def prune_def Let_def fold_settle_fields split: option.splits)

lemma complete_settled:
  assumes "inflight d key = Some e" and "distinct (resolve e)"
    and "\<forall>p \<in> set (resolve e). promiseValue d p = None"
  shows "settled (complete key result now d) = settled d @ map (\<lambda>p. (p, result)) (resolve e)"
proof -
  have "\<And>d'. settled d' = settled d \<Longrightarrow>
      settled (fold (settle result) (resolve e) d') = settled d @ map (\<lambda>p. (p, result)) (resolve e)"
  proof -
    fix d' :: RequestDeduplicator
    assume s: "settled d' = settled d"
    then have "\<forall>p \<in> set (resolve e). promiseValue d' p = None"
      using assms(3) by (simp add: promiseValue_def)
    from fold_settle [OF assms(2) this] show
      "settled (fold (settle result) (resolve e) d') = settled d @ map (\<lambda>p. (p, result)) (resolve e)"
      using s by simp
  qed
  then show ?thesis using assms(1) by (simp add: complete_def prune_def Let_def)
qed

lemma complete_settled_none:
  "inflight d key = None \<Longrightarrow> settled (complete key result now d) = settled d"
  by (simp add: complete_def prune_def Let_def)

lemma promiseValue_None_iff: "promiseValue d p = None \<longleftrightarrow> p \<notin> fst ` set (settled d)"
  by (simp add: promiseValue_def map_of_eq_None_iff)

text \<open>
  Every method of the deduplicator keeps the state well formed, and in a well-formed
  state every in-flight entry is pending.
\<close>

lemma wellFormed_new: "wellFormed (newDeduplicator ttl)"
  by (simp add: wellFormed_def newDeduplicator_def)

lemma wellFormed_pendingEntry:
  "wellFormed d \<Longrightarrow> inflight d k = Some e \<Longrightarrow> pendingEntry d e"
  by (auto simp: wellFormed_def pendingEntry_def list_all_iff)

lemma wellFormed_markInflight: "wellFormed d \<Longrightarrow> wellFormed (markInflight k d)"
  unfolding wellFormed_def markInflight_def promiseValue_def
  by (auto split: if_splits)

lemma wellFormed_removeInflight: "wellFormed d \<Longrightarrow> wellFormed (removeInflight k d)"
  unfolding wellFormed_def removeInflight_def promiseValue_def
  by (auto split: if_splits)

lemma wellFormed_getCached: "wellFormed d \<Longrightarrow> wellFormed (snd (getCached k t d))"
  unfolding wellFormed_def getCached_def promiseValue_def
  by (auto split: option.splits if_splits)

lemma wellFormed_getInflight:
  assumes "wellFormed d"
  shows "wellFormed (snd (getInflight k d))"
proof (cases "inflight d k")
  case None
  then show ?thesis using assms by (simp add: getInflight_def)
next
  case (Some e)
  let ?p = "nextPromise d"
  let ?e' = "\<lparr> resolve = resolve e @ [?p, Suc ?p], waiters = waiters e @ [Suc ?p] \<rparr>"
  have g: "snd (getInflight k d) = d\<lparr> inflight := (inflight d)(k \<mapsto> ?e'), nextPromise := ?p + 2 \<rparr>"
    using Some by (simp add: getInflight_def Let_def)
  have old: "\<And>k' e'. inflight d k' = Some e' \<Longrightarrow>
      distinct (resolve e') \<and> (\<forall>p \<in> set (resolve e'). p < ?p \<and> promiseValue d p = None)"
    and created: "\<forall>x \<in> set (settled d). fst x < ?p"
    and disj: "\<And>k1 k2 e1 e2. k1 \<noteq> k2 \<Longrightarrow> inflight d k1 = Some e1 \<Longrightarrow> inflight d k2 = Some e2 \<Longrightarrow>
      set (resolve e1) \<inter> set (resolve e2) = {}"
    using assms unfolding wellFormed_def by blast+
  have fresh: "promiseValue d ?p = None" "promiseValue d (Suc ?p) = None"
    using created by (force simp: promiseValue_None_iff)+
  have pv: "\<And>p. promiseValue (snd (getInflight k d)) p = promiseValue d p"
    unfolding g by (simp add: promiseValue_def)
  show ?thesis
    unfolding wellFormed_def
  proof (intro conjI allI impI ballI)
    fix k' e' assume i: "inflight (snd (getInflight k d)) k' = Some e'"
    show "distinct (resolve e')"
    proof (cases "k' = k")
      case True
      then have "e' = ?e'" using i g by simp
      then show ?thesis using old [OF Some] by auto
    next
      case False
      then show ?thesis using i g old by simp
    qed
  next
    fix k' e' p assume i: "inflight (snd (getInflight k d)) k' = Some e'" and p: "p \<in> set (resolve e')"
    show "p < nextPromise (snd (getInflight k d))"
    proof (cases "k' = k")
      case True
      then have "e' = ?e'" using i g by simp
      then show ?thesis using old [OF Some] p g by auto
    next
      case False
      then have "inflight d k' = Some e'" using i g by simp
      from old [OF this] p show ?thesis using g by auto
    qed
  next
    fix k' e' p assume i: "inflight (snd (getInflight k d)) k' = Some e'" and p: "p \<in> set (resolve e')"
    show "promiseValue (snd (getInflight k d)) p = None"
    proof (cases "k' = k")
      case True
      then have "e' = ?e'" using i g by simp
      then show ?thesis using old [OF Some] p fresh pv by auto
    next
      case False
      then have "inflight d k' = Some e'" using i g by simp
      from old [OF this] p show ?thesis using pv by auto
    qed
  next
    fix x assume "x \<in> set (settled (snd (getInflight k d)))"
    then show "fst x < nextPromise (snd (getInflight k d))" using created g by auto
  next
    fix k1 k2 e1 e2
    assume ne: "k1 \<noteq> k2" and i1: "inflight (snd (getInflight k d)) k1 = Some e1"
      and i2: "inflight (snd (getInflight k d)) k2 = Some e2"
    have other: "\<And>k' e'. k' \<noteq> k \<Longrightarrow> inflight d k' = Some e' \<Longrightarrow>
        set (resolve ?e') \<inter> set (resolve e') = {}"
    proof -
      fix k' e' assume a: "k' \<noteq> k" "inflight d k' = Some e'"
      have "set (resolve e) \<inter> set (resolve e') = {}" using disj [of k k' e e'] a Some by auto
      moreover have "\<forall>p \<in> set (resolve e'). p < ?p" using old [OF a(2)] by simp
      ultimately show "set (resolve ?e') \<inter> set (resolve e') = {}" by auto
    qed
    show "set (resolve e1) \<inter> set (resolve e2) = {}"
    proof (cases "k1 = k")
      case True
      then have e1: "e1 = ?e'" and i2': "inflight d k2 = Some e2" using i1 i2 g ne by auto
      show ?thesis using other [of k2 e2] ne True i2' e1 by auto
    next
      case False
      note k1 = this
      then have i1': "inflight d k1 = Some e1" using i1 g by simp
      show ?thesis
      proof (cases "k2 = k")
        case True
        then have e2: "e2 = ?e'" using i2 g by simp
        show ?thesis using other [of k1 e1] k1 i1' e2 by auto
      next
        case False
        then have "inflight d k2 = Some e2" using i2 g by simp
        then show ?thesis using disj [OF ne i1'] by simp
      qed
    qed
  qed
qed

lemma prune_fields:
  "inflight (prune now d) = inflight d" "settled (prune now d) = settled d"
  "nextPromise (prune now d) = nextPromise d" "ttlMs (prune now d) = ttlMs d"
  by (simp_all add: prune_def)

lemma wellFormed_cong:
  "inflight d' = inflight d \<Longrightarrow> settled d' = settled d \<Longrightarrow> nextPromise d' = nextPromise d \<Longrightarrow>
   wellFormed d' = wellFormed d"
  by (simp add: wellFormed_def promiseValue_def)

lemma wellFormed_complete:
  assumes "wellFormed d"
  shows "wellFormed (complete k r now d)"
proof (cases "inflight d k")
  case None
  have "inflight (complete k r now d) = inflight d"
    using None by (simp add: complete_inflight fun_eq_iff)
  moreover have "settled (complete k r now d) = settled d"
    using None by (rule complete_settled_none)
  ultimately show ?thesis using assms wellFormed_cong [of "complete k r now d" d]
    by (simp add: complete_other_fields)
next
  case (Some e)
  have old: "\<And>k' e'. inflight d k' = Some e' \<Longrightarrow>
      distinct (resolve e') \<and> (\<forall>p \<in> set (resolve e'). p < nextPromise d \<and> promiseValue d p = None)"
    and created: "\<forall>x \<in> set (settled d). fst x < nextPromise d"
    and disj: "\<And>k1 k2 e1 e2. k1 \<noteq> k2 \<Longrightarrow> inflight d k1 = Some e1 \<Longrightarrow> inflight d k2 = Some e2 \<Longrightarrow>
      set (resolve e1) \<inter> set (resolve e2) = {}"
    using assms unfolding wellFormed_def by blast+
  have s: "settled (complete k r now d) = settled d @ map (\<lambda>p. (p, r)) (resolve e)"
    using complete_settled [OF Some, of r now] old [OF Some] by simp
  have i: "inflight (complete k r now d) = (inflight d)(k := None)" by (rule complete_inflight)
  have n: "nextPromise (complete k r now d) = nextPromise d" by (rule complete_other_fields)
  have pv: "\<And>p. p \<notin> set (resolve e) \<Longrightarrow> promiseValue (complete k r now d) p = promiseValue d p"
  proof -
    fix p assume "p \<notin> set (resolve e)"
    then have "map_of (map (\<lambda>p. (p, r)) (resolve e)) p = None"
      by (simp add: map_of_eq_None_iff image_iff)
    then show "promiseValue (complete k r now d) p = promiseValue d p"
      unfolding promiseValue_def s by (simp add: map_add_def split: option.splits)
  qed
  show ?thesis
    unfolding wellFormed_def i n
  proof (intro conjI allI impI ballI)
    fix k' e' assume "((inflight d)(k := None)) k' = Some e'"
    then show "distinct (resolve e')" using old by (auto split: if_splits)
  next
    fix k' e' p assume a: "((inflight d)(k := None)) k' = Some e'" "p \<in> set (resolve e')"
    then show "p < nextPromise d" using old by (auto split: if_splits)
  next
    fix k' e' p assume a: "((inflight d)(k := None)) k' = Some e'" "p \<in> set (resolve e')"
    then have k': "k' \<noteq> k" "inflight d k' = Some e'" by (auto split: if_splits)
    have "set (resolve e') \<inter> set (resolve e) = {}" using disj [OF k'(1) k'(2) Some] .
    then have "p \<notin> set (resolve e)" using a(2) by auto
    then show "promiseValue (complete k r now d) p = None"
      using pv old [OF k'(2)] a(2) by simp
  next
    fix x assume "x \<in> set (settled (complete k r now d))"
    then show "fst x < nextPromise d" using created old [OF Some] unfolding s by auto
  next
    fix k1 k2 e1 e2
    assume "k1 \<noteq> k2" "((inflight d)(k := None)) k1 = Some e1" "((inflight d)(k := None)) k2 = Some e2"
    then show "set (resolve e1) \<inter> set (resolve e2) = {}"
      using disj [of k1 k2 e1 e2] by (auto split: if_splits)
  qed
qed

text \<open>
  Claim C6. For a key with an in-flight entry whose promises are pending, and any
  number \<open>n\<close> of joiners registered by \<open>getInflight\<close>, one call of \<open>complete\<close> resolves
  the promise of every joiner with the same result; the promises are resolved in the
  order of registration (the log of resolutions is extended by the promises of the
  entry in their order, each with this result); the in-flight entry is removed; and
  the result is put into the cache, before pruning, only when its body has at most
  \<open>MAX_BODY_SIZE\<close> bytes.
\<close>

theorem C6_complete_releases_joiners:
  assumes "inflight d key = Some e" and "pendingEntry d e" and "joinN n key d = (ps, d1)"
  shows "length ps = n
       \<and> settled (complete key result now d1)
           = settled d @ map (\<lambda>p. (p, result)) (resolve e @ concat (map (\<lambda>p. [p, Suc p]) ps))
       \<and> list_all (\<lambda>p. promiseValue (complete key result now d1) p = Some result) ps
       \<and> inflight (complete key result now d1) key = None
       \<and> completed (complete key result now d1)
           = completed (prune now (if length (body result) \<le> MAX_BODY_SIZE
                                   then d1\<lparr> completed := (completed d1)(key \<mapsto> result) \<rparr>
                                   else d1))"
proof -
  let ?R = "resolve e @ concat (map (\<lambda>p. [p, Suc p]) ps)"
  note j = joinN_spec [OF assms(1) assms(3)]
  from j have ps: "ps = map (\<lambda>i. nextPromise d + 2 * i) [0..<n]" by blast
  from j obtain e1 where e1: "inflight d1 key = Some e1" "resolve e1 = ?R" by blast
  from j have s1: "settled d1 = settled d" by blast
  have len: "length ps = n" using ps by simp
  have old: "distinct (resolve e)" "\<forall>p \<in> set (resolve e). p < nextPromise d \<and> promiseValue d p = None"
    and created: "\<forall>x \<in> set (settled d). fst x < nextPromise d"
    using assms(2) by (auto simp: pendingEntry_def list_all_iff)
  have new_fresh: "\<And>x. x \<in> set (concat (map (\<lambda>p. [p, Suc p]) ps)) \<Longrightarrow> nextPromise d \<le> x"
    unfolding ps by (rule joined_fresh)
  have new_pending: "\<And>x. nextPromise d \<le> x \<Longrightarrow> promiseValue d x = None"
    using created by (force simp: promiseValue_None_iff)
  have dist: "distinct ?R"
    using old new_fresh joined_distinct [of "nextPromise d" n] unfolding ps [symmetric]
    by (fastforce simp: ps [symmetric])
  have pend: "\<forall>p \<in> set (resolve e1). promiseValue d1 p = None"
    unfolding e1(2) using old(2) new_fresh new_pending s1 by (auto simp: promiseValue_def)
  have log: "settled (complete key result now d1) = settled d @ map (\<lambda>p. (p, result)) ?R"
    using complete_settled [OF e1(1) _ pend, of result now] dist e1(2) s1 by simp
  have vals: "list_all (\<lambda>p. promiseValue (complete key result now d1) p = Some result) ps"
  proof -
    have "promiseValue (complete key result now d1) p = Some result" if "p \<in> set ps" for p
    proof -
      have inR: "p \<in> set ?R" using that by auto
      have "nextPromise d \<le> p" using that ps by auto
      then have "map_of (settled d) p = None" using new_pending by (simp add: promiseValue_def)
      moreover have "map_of (map (\<lambda>p. (p, result)) ?R) p = Some result"
        using inR by (simp add: map_of_map_restrict del: set_append map_append)
      ultimately show ?thesis unfolding promiseValue_def log by (simp add: map_add_def)
    qed
    then show ?thesis by (simp add: list_all_iff)
  qed
  show ?thesis using len log vals complete_inflight [of key result now d1] complete_completed
    by simp
qed

text \<open>
  Three joiners of a fresh entry get the promises 0, 2 and 4; \<open>complete\<close> resolves
  the promises 0 to 5 in this order with the one result.
\<close>

theorem C6_complete_releases_joiners_witness:
  "inflight (markInflight ''k'' (newDeduplicator 30000)) ''k'' = Some \<lparr> resolve = [], waiters = [] \<rparr>
   \<and> pendingEntry (markInflight ''k'' (newDeduplicator 30000)) \<lparr> resolve = [], waiters = [] \<rparr>
   \<and> fst (joinN 3 ''k'' (markInflight ''k'' (newDeduplicator 30000))) = [0, 2, 4]
   \<and> settled (complete ''k'' \<lparr> status = 200, headers = [], body = ''ok'', completedAt = 1000 \<rparr> 1000
        (snd (joinN 3 ''k'' (markInflight ''k'' (newDeduplicator 30000)))))
       = map (\<lambda>p. (p, \<lparr> status = 200, headers = [], body = ''ok'', completedAt = 1000 \<rparr>))
           [0, 1, 2, 3, 4, 5]
   \<and> promiseValue (complete ''k'' \<lparr> status = 200, headers = [], body = ''ok'', completedAt = 1000 \<rparr>
        1000 (snd (joinN 3 ''k'' (markInflight ''k'' (newDeduplicator 30000))))) 4
       = Some \<lparr> status = 200, headers = [], body = ''ok'', completedAt = 1000 \<rparr>
   \<and> inflight (complete ''k'' \<lparr> status = 200, headers = [], body = ''ok'', completedAt = 1000 \<rparr>
        1000 (snd (joinN 3 ''k'' (markInflight ''k'' (newDeduplicator 30000))))) ''k'' = None"
proof -
  let ?d = "markInflight ''k'' (newDeduplicator 30000)"
  let ?e = "\<lparr> resolve = [], waiters = [] \<rparr>"
  have h1: "inflight ?d ''k'' = Some ?e" by (simp add: markInflight_def)
  have h2: "pendingEntry ?d ?e"
    by (simp add: pendingEntry_def markInflight_def newDeduplicator_def)
  have j: "fst (joinN 3 ''k'' ?d) = [0, 2, 4]"
    by (simp add: eval_nat_numeral getInflight_def markInflight_def newDeduplicator_def Let_def)
  have h3: "joinN 3 ''k'' ?d = ([0, 2, 4], snd (joinN 3 ''k'' ?d))"
    using j by (metis prod.collapse)
  have s: "settled ?d = []" by (simp add: markInflight_def newDeduplicator_def)
  show ?thesis
    using C6_complete_releases_joiners [OF h1 h2 h3,
        of "\<lparr> status = 200, headers = [], body = ''ok'', completedAt = 1000 \<rparr>" 1000] h1 h2 j
    by (simp add: s)
qed

section \<open>Properties of the proxy\<close>

lemma getCached_cases:
  "getCached k t d = (None, d) \<and> completed d k = None
   \<or> (\<exists>c. completed d k = Some c \<and> t - completedAt c > ttlMs d
          \<and> getCached k t d = (None, d\<lparr> completed := (completed d)(k := None) \<rparr>))
   \<or> (\<exists>c. completed d k = Some c \<and> \<not> t - completedAt c > ttlMs d
          \<and> getCached k t d = (Some c, d))"
  by (cases "completed d k") (auto simp: getCached_def)

lemma getCached_fields:
  "inflight (snd (getCached k t d)) = inflight d"
  "ttlMs (snd (getCached k t d)) = ttlMs d"
  "settled (snd (getCached k t d)) = settled d"
  "nextPromise (snd (getCached k t d)) = nextPromise d"
  by (simp_all add: getCached_def split: option.splits)

lemma getCached_miss:
  "fst (getCached k t d) = None \<Longrightarrow> completed (snd (getCached k t d)) k = None"
  by (auto simp: getCached_def split: option.splits if_splits)

lemma getCached_shrinks:
  "completed (snd (getCached k t d)) k' = Some c \<Longrightarrow> completed d k' = Some c"
  by (auto simp: getCached_def split: option.splits if_splits)

lemma getCached_hit:
  "completed d k = Some c \<Longrightarrow> t - completedAt c \<le> ttlMs d \<Longrightarrow> getCached k t d = (Some c, d)"
  by (simp add: getCached_def)

lemma getCached_absent:
  "completed d k = None \<Longrightarrow> getCached k t d = (None, d)"
  by (simp add: getCached_def)

lemma proxy_hit:
  "fst (getCached (hash b) (tCheck env) (dedup st)) = Some c \<Longrightarrow>
   proxyRequest hash b s env st = (Sent (response c), st)"
  by (auto simp: proxyRequest_def Let_def getCached_def split: option.splits if_splits)

lemma proxy_joined:
  "fst (getCached (hash b) (tCheck env) (dedup st)) = None \<Longrightarrow>
   inflight (dedup st) (hash b) = Some e \<Longrightarrow>
   fst (proxyRequest hash b s env st) = Joined (nextPromise (dedup st))
   \<and> completed (dedup (snd (proxyRequest hash b s env st)))
       = completed (snd (getCached (hash b) (tCheck env) (dedup st)))
   \<and> upstreamCalls (snd (proxyRequest hash b s env st)) = upstreamCalls st"
  by (auto simp: proxyRequest_def Let_def getCached_def getInflight_def split: option.splits if_splits)

lemma proxy_forward:
  "fst (getCached (hash b) (tCheck env) (dedup st)) = None \<Longrightarrow>
   inflight (dedup st) (hash b) = None \<Longrightarrow>
   proxyRequest hash b s env st =
     forwardRequest (hash b) s env
       (st\<lparr> dedup := markInflight (hash b) (snd (getCached (hash b) (tCheck env) (dedup st))) \<rparr>)"
  by (auto simp: proxyRequest_def Let_def getCached_def getInflight_def split: option.splits if_splits)

lemma removeInflight_fields:
  "completed (removeInflight k d) = completed d"
  "inflight (removeInflight k d) = (inflight d)(k := None)"
  "ttlMs (removeInflight k d) = ttlMs d"
  "settled (removeInflight k d) = settled d"
  "nextPromise (removeInflight k d) = nextPromise d"
  by (simp_all add: removeInflight_def)

lemma markInflight_fields:
  "completed (markInflight k d) = completed d"
  "inflight (markInflight k d) k = Some \<lparr> resolve = [], waiters = [] \<rparr>"
  "ttlMs (markInflight k d) = ttlMs d"
  "settled (markInflight k d) = settled d"
  "nextPromise (markInflight k d) = nextPromise d"
  by (simp_all add: markInflight_def)

lemma forward_fails:
  assumes "upstreamFails (upstream env)"
  shows "\<exists>msg partial. forwardRequest key s env st =
           (Failed msg partial,
            \<lparr> dedup = removeInflight key (dedup st), upstreamCalls = upstreamCalls st + 1 \<rparr>)"
  using assms
  by (cases "upstream env")
     (auto simp: forwardRequest_def upstreamFails_def Let_def removeInflight_def)

lemma complete_completed_key:
  "completed (complete key r now d) key =
     (if length (body r) \<le> MAX_BODY_SIZE
      then (if now - completedAt r > ttlMs d then None else Some r)
      else (case completed d key of
              None \<Rightarrow> None
            | Some c \<Rightarrow> if now - completedAt c > ttlMs d then None else Some c))"
  by (simp add: complete_completed prune_def)

lemma complete_completed_other:
  "k \<noteq> key \<Longrightarrow> completed (complete key r now d) k =
     (case completed d k of
        None \<Rightarrow> None
      | Some c \<Rightarrow> if now - completedAt c > ttlMs d then None else Some c)"
  by (simp add: complete_completed prune_def split: option.splits)

lemma forward_plain:
  "upstream env = Responded ust uhs chunks None \<Longrightarrow>
   forwardRequest key False env st =
     (Sent \<lparr> status = ust, headers = responseHeaders uhs, body = concat chunks \<rparr>,
      \<lparr> dedup = complete key \<lparr> status = ust, headers = responseHeaders uhs, body = concat chunks,
                                completedAt = tDone env \<rparr> (tPrune env) (atCall key env st),
        upstreamCalls = upstreamCalls st + 1 \<rparr>)"
  by (simp add: forwardRequest_def Let_def atCall_def)

lemma forward_stream_ok:
  "upstream env = Responded 200 uhs chunks None \<Longrightarrow>
   forwardRequest key True env st =
     (Sent \<lparr> status = 200, headers = earlyHeaders,
             body = concat (replicate (Suc (beats env)) (utf8 heartbeat)) @ concat chunks \<rparr>,
      \<lparr> dedup = complete key \<lparr> status = 200, headers = [(''content-type'', ''text/event-stream'')],
                                body = concat chunks, completedAt = tDone env \<rparr>
                     (tPrune env) (atCall key env st),
        upstreamCalls = upstreamCalls st + 1 \<rparr>)"
  by (simp add: forwardRequest_def Let_def atCall_def)

lemma forward_stream_error:
  "upstream env = Responded ust uhs chunks None \<Longrightarrow> ust \<noteq> 200 \<Longrightarrow>
   forwardRequest key True env st =
     (Sent \<lparr> status = 200, headers = earlyHeaders,
             body = concat (replicate (Suc (beats env)) (utf8 heartbeat))
                    @ utf8 (dataEvent (stringifyUpstreamError (utf8Decode (concat chunks)) ust))
                    @ utf8 doneEvent \<rparr>,
      \<lparr> dedup = removeInflight key
                 (complete key
                    \<lparr> status = 200, headers = [(''content-type'', ''text/event-stream'')],
                      body = utf8 (dataEvent (stringifyUpstreamError (utf8Decode (concat chunks)) ust)
                                   @ doneEvent),
                      completedAt = tDone env \<rparr>
                    (tPrune env) (atCall key env st)),
        upstreamCalls = upstreamCalls st + 1 \<rparr>)"
  by (simp add: forwardRequest_def Let_def atCall_def)

lemma atCall_fields:
  "completed (atCall key env st) = completed (dedup st)"
  "ttlMs (atCall key env st) = ttlMs (dedup st)"
  by (simp_all add: atCall_def removeInflight_def)

text \<open>A request that is forwarded: no entry of the cache is served, no request with
  the same key is in flight.\<close>

lemma forwarded_state:
  assumes "fst (getCached key t d) = None"
  shows "completed (markInflight key (snd (getCached key t d))) key = None"
    and "ttlMs (markInflight key (snd (getCached key t d))) = ttlMs d"
  using assms by (simp_all add: markInflight_fields getCached_miss getCached_fields)

lemma proxy_stream_error:
  assumes miss: "fst (getCached (hash b) (tCheck env) (dedup st)) = None"
    and idle: "inflight (dedup st) (hash b) = None"
    and up: "upstream env = Responded ust uhs chunks None" and err: "ust \<noteq> 200"
  shows "fst (proxyRequest hash b True env st) =
           Sent \<lparr> status = 200, headers = earlyHeaders,
                  body = concat (replicate (Suc (beats env)) (utf8 heartbeat))
                    @ utf8 (dataEvent (stringifyUpstreamError (utf8Decode (concat chunks)) ust))
                    @ utf8 doneEvent \<rparr>"
    and "completed (dedup (snd (proxyRequest hash b True env st))) (hash b) =
           (let stored = \<lparr> status = 200, headers = [(''content-type'', ''text/event-stream'')],
                           body = utf8 (dataEvent (stringifyUpstreamError (utf8Decode (concat chunks)) ust)
                                        @ doneEvent),
                           completedAt = tDone env \<rparr>
            in if length (body stored) \<le> MAX_BODY_SIZE \<and> tPrune env - tDone env \<le> ttlMs (dedup st)
               then Some stored else None)"
    and "inflight (dedup (snd (proxyRequest hash b True env st))) (hash b) = None"
    and "upstreamCalls (snd (proxyRequest hash b True env st)) = upstreamCalls st + 1"
    and "ttlMs (dedup (snd (proxyRequest hash b True env st))) = ttlMs (dedup st)"
proof -
  let ?st = "st\<lparr> dedup := markInflight (hash b) (snd (getCached (hash b) (tCheck env) (dedup st))) \<rparr>"
  note p = proxy_forward [of hash b env st True, OF miss idle]
    forward_stream_error [OF up err, of "hash b" ?st]
  note f = forwarded_state [OF miss]
  show "fst (proxyRequest hash b True env st) =
           Sent \<lparr> status = 200, headers = earlyHeaders,
                  body = concat (replicate (Suc (beats env)) (utf8 heartbeat))
                    @ utf8 (dataEvent (stringifyUpstreamError (utf8Decode (concat chunks)) ust))
                    @ utf8 doneEvent \<rparr>"
    unfolding p by simp
  show "completed (dedup (snd (proxyRequest hash b True env st))) (hash b) =
           (let stored = \<lparr> status = 200, headers = [(''content-type'', ''text/event-stream'')],
                           body = utf8 (dataEvent (stringifyUpstreamError (utf8Decode (concat chunks)) ust)
                                        @ doneEvent),
                           completedAt = tDone env \<rparr>
            in if length (body stored) \<le> MAX_BODY_SIZE \<and> tPrune env - tDone env \<le> ttlMs (dedup st)
               then Some stored else None)"
    unfolding p using f
    by (simp add: removeInflight_fields complete_completed_key atCall_fields Let_def not_less)
  show "inflight (dedup (snd (proxyRequest hash b True env st))) (hash b) = None"
    unfolding p by (simp add: removeInflight_fields)
  show "upstreamCalls (snd (proxyRequest hash b True env st)) = upstreamCalls st + 1"
    unfolding p by simp
  show "ttlMs (dedup (snd (proxyRequest hash b True env st))) = ttlMs (dedup st)"
    unfolding p using f by (simp add: removeInflight_fields complete_other_fields atCall_fields)
qed

lemma proxy_plain:
  assumes miss: "fst (getCached (hash b) (tCheck env) (dedup st)) = None"
    and idle: "inflight (dedup st) (hash b) = None"
    and up: "upstream env = Responded ust uhs chunks None"
  shows "fst (proxyRequest hash b False env st) =
           Sent \<lparr> status = ust, headers = responseHeaders uhs, body = concat chunks \<rparr>"
    and "completed (dedup (snd (proxyRequest hash b False env st))) (hash b) =
           (if length (concat chunks) \<le> MAX_BODY_SIZE \<and> tPrune env - tDone env \<le> ttlMs (dedup st)
            then Some \<lparr> status = ust, headers = responseHeaders uhs, body = concat chunks,
                        completedAt = tDone env \<rparr>
            else None)"
    and "inflight (dedup (snd (proxyRequest hash b False env st))) (hash b) = None"
    and "upstreamCalls (snd (proxyRequest hash b False env st)) = upstreamCalls st + 1"
    and "ttlMs (dedup (snd (proxyRequest hash b False env st))) = ttlMs (dedup st)"
proof -
  let ?st = "st\<lparr> dedup := markInflight (hash b) (snd (getCached (hash b) (tCheck env) (dedup st))) \<rparr>"
  note p = proxy_forward [of hash b env st False, OF miss idle]
    forward_plain [OF up, of "hash b" ?st]
  note f = forwarded_state [OF miss]
  show "fst (proxyRequest hash b False env st) =
           Sent \<lparr> status = ust, headers = responseHeaders uhs, body = concat chunks \<rparr>"
    unfolding p by simp
  show "completed (dedup (snd (proxyRequest hash b False env st))) (hash b) =
           (if length (concat chunks) \<le> MAX_BODY_SIZE \<and> tPrune env - tDone env \<le> ttlMs (dedup st)
            then Some \<lparr> status = ust, headers = responseHeaders uhs, body = concat chunks,
                        completedAt = tDone env \<rparr>
            else None)"
    unfolding p using f
    by (simp add: complete_completed_key atCall_fields not_less)
  show "inflight (dedup (snd (proxyRequest hash b False env st))) (hash b) = None"
    unfolding p by (simp add: complete_inflight)
  show "upstreamCalls (snd (proxyRequest hash b False env st)) = upstreamCalls st + 1"
    unfolding p by simp
  show "ttlMs (dedup (snd (proxyRequest hash b False env st))) = ttlMs (dedup st)"
    unfolding p using f by (simp add: complete_other_fields atCall_fields)
qed

lemma proxy_stream_ok:
  assumes miss: "fst (getCached (hash b) (tCheck env) (dedup st)) = None"
    and idle: "inflight (dedup st) (hash b) = None"
    and up: "upstream env = Responded 200 uhs chunks None"
  shows "fst (proxyRequest hash b True env st) =
           Sent \<lparr> status = 200, headers = earlyHeaders,
                  body = concat (replicate (Suc (beats env)) (utf8 heartbeat)) @ concat chunks \<rparr>"
    and "completed (dedup (snd (proxyRequest hash b True env st))) (hash b) =
           (if length (concat chunks) \<le> MAX_BODY_SIZE \<and> tPrune env - tDone env \<le> ttlMs (dedup st)
            then Some \<lparr> status = 200, headers = [(''content-type'', ''text/event-stream'')],
                        body = concat chunks, completedAt = tDone env \<rparr>
            else None)"
    and "upstreamCalls (snd (proxyRequest hash b True env st)) = upstreamCalls st + 1"
    and "ttlMs (dedup (snd (proxyRequest hash b True env st))) = ttlMs (dedup st)"
proof -
  let ?st = "st\<lparr> dedup := markInflight (hash b) (snd (getCached (hash b) (tCheck env) (dedup st))) \<rparr>"
  note p = proxy_forward [of hash b env st True, OF miss idle]
    forward_stream_ok [OF up, of "hash b" ?st]
  note f = forwarded_state [OF miss]
  show "fst (proxyRequest hash b True env st) =
           Sent \<lparr> status = 200, headers = earlyHeaders,
                  body = concat (replicate (Suc (beats env)) (utf8 heartbeat)) @ concat chunks \<rparr>"
    unfolding p by simp
  show "completed (dedup (snd (proxyRequest hash b True env st))) (hash b) =
           (if length (concat chunks) \<le> MAX_BODY_SIZE \<and> tPrune env - tDone env \<le> ttlMs (dedup st)
            then Some \<lparr> status = 200, headers = [(''content-type'', ''text/event-stream'')],
                        body = concat chunks, completedAt = tDone env \<rparr>
            else None)"
    unfolding p using f
    by (simp add: complete_completed_key atCall_fields not_less)
  show "upstreamCalls (snd (proxyRequest hash b True env st)) = upstreamCalls st + 1"
    unfolding p by simp
  show "ttlMs (dedup (snd (proxyRequest hash b True env st))) = ttlMs (dedup st)"
    unfolding p using f by (simp add: complete_other_fields atCall_fields)
qed

text \<open>A retry that finds the entry of the first request.\<close>

lemma proxy_replay:
  assumes "completed (dedup st) (hash b) = Some c" and "tCheck env - completedAt c \<le> ttlMs (dedup st)"
  shows "proxyRequest hash b s env st = (Sent (response c), st)"
  using proxy_hit [of hash b env st c s] getCached_hit [OF assms] by simp

lemma proxy_failure:
  assumes "upstreamFails (upstream env)"
  shows "completed (dedup (snd (proxyRequest hash b s env st)))
           = completed (snd (getCached (hash b) (tCheck env) (dedup st)))"
    and "(\<exists>m p. fst (proxyRequest hash b s env st) = Failed m p) \<Longrightarrow>
           inflight (dedup (snd (proxyRequest hash b s env st))) (hash b) = None
           \<and> completed (dedup (snd (proxyRequest hash b s env st))) (hash b) = None"
proof -
  let ?g = "getCached (hash b) (tCheck env) (dedup st)"
  let ?st = "st\<lparr> dedup := markInflight (hash b) (snd ?g) \<rparr>"
  from forward_fails [OF assms, of "hash b" s ?st] obtain msg partial where
    fw: "forwardRequest (hash b) s env ?st =
           (Failed msg partial,
            \<lparr> dedup = removeInflight (hash b) (dedup ?st), upstreamCalls = upstreamCalls ?st + 1 \<rparr>)"
    by blast
  consider (hit) c where "fst ?g = Some c"
    | (join) e where "fst ?g = None" "inflight (dedup st) (hash b) = Some e"
    | (fwd) "fst ?g = None" "inflight (dedup st) (hash b) = None"
    by (cases "fst ?g"; cases "inflight (dedup st) (hash b)") auto
  then have both: "completed (dedup (snd (proxyRequest hash b s env st))) = completed (snd ?g)
    \<and> ((\<exists>m p. fst (proxyRequest hash b s env st) = Failed m p) \<longrightarrow>
           inflight (dedup (snd (proxyRequest hash b s env st))) (hash b) = None
           \<and> completed (dedup (snd (proxyRequest hash b s env st))) (hash b) = None)"
  proof cases
    case hit
    then have "snd ?g = dedup st" by (auto simp: getCached_def split: option.splits if_splits)
    then show ?thesis using proxy_hit [of hash b env st c s] hit by simp
  next
    case join
    then show ?thesis using proxy_joined [of hash b env st e s] by simp
  next
    case fwd
    have p: "proxyRequest hash b s env st = forwardRequest (hash b) s env ?st"
      using proxy_forward [of hash b env st s] fwd by simp
    show ?thesis unfolding p fw using getCached_miss [OF fwd(1)]
      by (simp add: removeInflight_fields markInflight_fields)
  qed
  show "completed (dedup (snd (proxyRequest hash b s env st))) = completed (snd ?g)"
    using both by blast
  show "(\<exists>m p. fst (proxyRequest hash b s env st) = Failed m p) \<Longrightarrow>
           inflight (dedup (snd (proxyRequest hash b s env st))) (hash b) = None
           \<and> completed (dedup (snd (proxyRequest hash b s env st))) (hash b) = None"
    using both by blast
qed

lemmas json_eval = dataEvent_def doneEvent_def heartbeat_def stringifyUpstreamError_def
  jsonQuote_def jsonEscape_def utf8_def utf8Char_def hexDigit_def

lemma fresh_miss: "fst (getCached k t (dedup freshProxy)) = None"
  by (simp add: freshProxy_def newDeduplicator_def getCached_def)

lemma fresh_idle: "inflight (dedup freshProxy) k = None"
  by (simp add: freshProxy_def newDeduplicator_def)

lemma fresh_fields: "ttlMs (dedup freshProxy) = 30000" "upstreamCalls freshProxy = 0"
  by (simp_all add: freshProxy_def newDeduplicator_def DEFAULT_TTL_MS_def)

lemma example_keys: "exampleHash streamBody = streamKey" "exampleHash plainBody = plainKey"
  by (simp_all add: exampleHash_def streamBody_def plainBody_def)

lemma env_fields:
  "tCheck (firstEnv u) = 1000" "tDone (firstEnv u) = 1500" "tPrune (firstEnv u) = 1500"
  "beats (firstEnv u) = 0" "upstream (firstEnv u) = u"
  "tCheck (retryEnv u) = 3000" "upstream (retryEnv u) = u"
  by (simp_all add: firstEnv_def retryEnv_def)

lemma error_stream_bytes:
  \<open>utf8 (dataEvent (stringifyUpstreamError ''boom'' 500) @ doneEvent) =
     ''data: {"error":{"message":"boom","type":"upstream_error","status":500}}''
       @ [CHR 0x0A, CHR 0x0A] @ ''data: [DONE]'' @ [CHR 0x0A, CHR 0x0A]\<close>
  by (simp add: json_eval char_eval)

lemma length_utf8_ge: "length s \<le> length (utf8 s)"
  by (induction s) (auto simp: utf8_def utf8Char_def Let_def)

lemma length_jsonQuote_ge: "length s \<le> length (jsonQuote s)"
proof -
  have "length s \<le> length (concat (map jsonEscape s))"
    by (induction s) (auto simp: jsonEscape_def Let_def)
  then show ?thesis by (simp add: jsonQuote_def)
qed

lemma length_errorEvent_gt:
  "length m < length (utf8 (dataEvent (stringifyUpstreamError m st) @ doneEvent))"
proof -
  have "length m \<le> length (jsonQuote m)" by (rule length_jsonQuote_ge)
  also have "\<dots> < length (dataEvent (stringifyUpstreamError m st) @ doneEvent)"
    by (simp add: dataEvent_def stringifyUpstreamError_def doneEvent_def)
  also have "\<dots> \<le> length (utf8 (dataEvent (stringifyUpstreamError m st) @ doneEvent))"
    by (rule length_utf8_ge)
  finally show ?thesis .
qed

text \<open>Decoding the UTF-8 encoding of a string gives the string back.\<close>

lemma utf8Decode_utf8Char:
  "utf8Decode (utf8Char c @ bs) = c # utf8Decode bs"
proof (cases "(of_char c :: nat) < 128")
  case True
  then show ?thesis by (cases bs) (simp_all add: utf8Char_def Let_def)
next
  case False
  define n where "n = (of_char c :: nat)"
  have n1: "128 \<le> n" using False unfolding n_def by (simp only: not_less)
  have "(of_char c :: nat) mod 256 = of_char c" by (rule of_char_mod_256)
  moreover have "(of_char c :: nat) mod 256 < 256" by (rule mod_less_divisor) simp
  ultimately have n2: "n < 256" unfolding n_def by (simp only:)
  have "128 div 64 \<le> n div 64" using n1 by (rule div_le_mono)
  then have d1: "2 \<le> n div 64" by simp
  have "n < 4 * 64" using n2 by simp
  then have d2: "n div 64 < 4" by (rule less_mult_imp_div_less)
  define hi where "hi = 192 + n div 64"
  define lo where "lo = 128 + n mod 64"
  have hi: "hi = 194 \<or> hi = 195" using d1 d2 unfolding hi_def by arith
  have lo: "128 \<le> lo" "lo < 192" unfolding lo_def by simp_all
  have hl: "(hi - 192) * 64 + (lo - 128) = n" unfolding hi_def lo_def by simp
  have c: "char_of n = c" unfolding n_def by (rule char_of_char)
  have a: "(of_char (char_of hi :: char) :: nat) = hi"
    using hi by auto
  have b: "(of_char (char_of lo :: char) :: nat) = lo"
    using lo by simp
  have u: "utf8Char c = [char_of hi, char_of lo]"
    unfolding utf8Char_def Let_def hi_def lo_def n_def using False by (simp only: if_False)
  have cond: "(hi = 194 \<or> hi = 195) \<and> 128 \<le> lo \<and> lo < 192" using hi lo by simp
  have "utf8Decode (char_of hi # char_of lo # bs) = char_of ((hi - 192) * 64 + (lo - 128)) # utf8Decode bs"
    unfolding utf8Decode.simps(3) Let_def a b using cond by (simp only: if_True simp_thms)
  then show ?thesis unfolding u hl c by simp
qed

lemma utf8Decode_utf8: "utf8Decode (utf8 s) = s"
  by (induction s) (simp_all add: utf8_def utf8Decode_utf8Char)

lemma utf8Decode_ascii:
  "\<forall>c \<in> set bs. (of_char c :: nat) < 128 \<Longrightarrow> utf8Decode bs = bs"
  by (induction bs rule: utf8Decode.induct) (auto simp: Let_def)

text \<open>
  A forwarded request whose upstream call returns a response completes the entry of
  its key with \<open>cachedEntry\<close>; one whose upstream call fails leaves the cache as it was.
\<close>

lemma proxy_response:
  assumes miss: "fst (getCached (hash b) (tCheck env) (dedup st)) = None"
    and idle: "inflight (dedup st) (hash b) = None"
    and up: "upstream env = Responded ust uhs chunks None"
  shows "completed (dedup (snd (proxyRequest hash b s env st))) (hash b) =
           (if length (body (cachedEntry s ust uhs chunks (tDone env))) \<le> MAX_BODY_SIZE
               \<and> tPrune env - tDone env \<le> ttlMs (dedup st)
            then Some (cachedEntry s ust uhs chunks (tDone env)) else None)"
    and "inflight (dedup (snd (proxyRequest hash b s env st))) (hash b) = None"
proof -
  consider (plain) "\<not> s" | (ok) "s" "ust = 200" | (err) "s" "ust \<noteq> 200" by blast
  then have "completed (dedup (snd (proxyRequest hash b s env st))) (hash b) =
           (if length (body (cachedEntry s ust uhs chunks (tDone env))) \<le> MAX_BODY_SIZE
               \<and> tPrune env - tDone env \<le> ttlMs (dedup st)
            then Some (cachedEntry s ust uhs chunks (tDone env)) else None)
       \<and> inflight (dedup (snd (proxyRequest hash b s env st))) (hash b) = None"
  proof cases
    case plain
    then show ?thesis
      using proxy_plain(2,3) [of hash b env st ust uhs chunks, OF miss idle up]
      by (simp add: cachedEntry_def)
  next
    case ok
    let ?st = "st\<lparr> dedup := markInflight (hash b) (snd (getCached (hash b) (tCheck env) (dedup st))) \<rparr>"
    have up': "upstream env = Responded 200 uhs chunks None" using up ok by simp
    have i: "inflight (dedup (snd (proxyRequest hash b True env st))) (hash b) = None"
      unfolding proxy_forward [of hash b env st True, OF miss idle]
        forward_stream_ok [OF up', of "hash b" ?st]
      by (simp add: complete_inflight)
    show ?thesis
      using proxy_stream_ok(2) [of hash b env st uhs chunks, OF miss idle up'] ok i
      by (simp add: cachedEntry_def)
  next
    case err
    then show ?thesis
      using proxy_stream_error(2,3) [of hash b env st ust uhs chunks, OF miss idle up]
      by (simp add: cachedEntry_def Let_def)
  qed
  then show "completed (dedup (snd (proxyRequest hash b s env st))) (hash b) =
           (if length (body (cachedEntry s ust uhs chunks (tDone env))) \<le> MAX_BODY_SIZE
               \<and> tPrune env - tDone env \<le> ttlMs (dedup st)
            then Some (cachedEntry s ust uhs chunks (tDone env)) else None)"
    and "inflight (dedup (snd (proxyRequest hash b s env st))) (hash b) = None"
    by blast+
qed

lemma proxy_forward_failure:
  assumes miss: "fst (getCached (hash b) (tCheck env) (dedup st)) = None"
    and idle: "inflight (dedup st) (hash b) = None"
    and fails: "upstreamFails (upstream env)"
  shows "completed (dedup (snd (proxyRequest hash b s env st)))
           = completed (snd (getCached (hash b) (tCheck env) (dedup st)))
       \<and> inflight (dedup (snd (proxyRequest hash b s env st))) (hash b) = None
       \<and> (\<forall>t. fst (getCached (hash b) t (dedup (snd (proxyRequest hash b s env st)))) = None)"
proof -
  let ?st = "st\<lparr> dedup := markInflight (hash b) (snd (getCached (hash b) (tCheck env) (dedup st))) \<rparr>"
  from forward_fails [OF fails, of "hash b" s ?st] obtain msg partial where
    fw: "forwardRequest (hash b) s env ?st =
           (Failed msg partial,
            \<lparr> dedup = removeInflight (hash b) (dedup ?st), upstreamCalls = upstreamCalls ?st + 1 \<rparr>)"
    by blast
  have f: "\<exists>m p. fst (proxyRequest hash b s env st) = Failed m p"
    unfolding proxy_forward [of hash b env st s, OF miss idle] fw by simp
  note pf = proxy_failure [OF fails, of hash b s st]
  show ?thesis using pf(1) pf(2) [OF f] by (simp add: getCached_absent)
qed

text \<open>\<open>proxyRequest\<close> keeps the deduplicator well formed.\<close>

lemma wellFormed_forwardRequest:
  assumes "wellFormed (dedup st)"
  shows "wellFormed (dedup (snd (forwardRequest k s env st)))"
proof -
  have d0: "wellFormed (if closedEarly env then removeInflight k (dedup st) else dedup st)"
    using assms by (simp add: wellFormed_removeInflight)
  show ?thesis
    unfolding forwardRequest_def Let_def
    using d0 assms
    by (simp add: wellFormed_removeInflight wellFormed_complete
          split: Upstream.splits option.splits)
qed

lemma wellFormed_proxyRequest:
  assumes "wellFormed (dedup st)"
  shows "wellFormed (dedup (snd (proxyRequest hash b s env st)))"
proof -
  have c: "wellFormed (snd (getCached (hash b) (tCheck env) (dedup st)))"
    using assms by (rule wellFormed_getCached)
  then have i: "wellFormed (snd (getInflight (hash b) (snd (getCached (hash b) (tCheck env) (dedup st)))))"
    by (rule wellFormed_getInflight)
  then have m: "wellFormed (markInflight (hash b)
      (snd (getInflight (hash b) (snd (getCached (hash b) (tCheck env) (dedup st))))))"
    by (rule wellFormed_markInflight)
  show ?thesis
  proof (cases "getCached (hash b) (tCheck env) (dedup st)")
    case (Pair r1 d1)
    note p1 = this
    show ?thesis
    proof (cases "getInflight (hash b) d1")
      case (Pair r2 d2)
      show ?thesis
        using c i m p1 Pair wellFormed_forwardRequest
        by (auto simp: proxyRequest_def Let_def split: option.splits)
    qed
  qed
qed

text \<open>
  Claim C2, as stated: an in-flight entry becomes a completed entry only when the
  upstream delivery succeeds, and a failed delivery is never served from the cache to
  a later retry. A streaming request whose upstream call returns status 500 leaves a
  completed entry (the error event stream, with status 200), and a retry one and a
  half seconds later is answered with it from the cache: no second upstream call.
\<close>

theorem C2_counterexample:
  "completed (dedup (snd (proxyRequest exampleHash streamBody True (firstEnv upstream500) freshProxy)))
     streamKey =
     Some \<lparr> status = 200, headers = [(''content-type'', ''text/event-stream'')],
            body = utf8 (dataEvent (stringifyUpstreamError ''boom'' 500) @ doneEvent),
            completedAt = 1500 \<rparr>
   \<and> fst (proxyRequest exampleHash streamBody True (retryEnv upstreamSse)
          (snd (proxyRequest exampleHash streamBody True (firstEnv upstream500) freshProxy))) =
     Sent \<lparr> status = 200, headers = [(''content-type'', ''text/event-stream'')],
            body = utf8 (dataEvent (stringifyUpstreamError ''boom'' 500) @ doneEvent) \<rparr>
   \<and> upstreamCalls (snd (proxyRequest exampleHash streamBody True (retryEnv upstreamSse)
          (snd (proxyRequest exampleHash streamBody True (firstEnv upstream500) freshProxy)))) = 1"
proof -
  let ?st1 = "snd (proxyRequest exampleHash streamBody True (firstEnv upstream500) freshProxy)"
  let ?c = "\<lparr> status = 200, headers = [(''content-type'', ''text/event-stream'')],
            body = utf8 (dataEvent (stringifyUpstreamError ''boom'' 500) @ doneEvent),
            completedAt = 1500 \<rparr>"
  have h3: "upstream (firstEnv upstream500) = Responded 500 [(''content-type'', ''text/plain'')] [''boom''] None"
    by (simp add: env_fields upstream500_def)
  have len: "length (utf8 (dataEvent (stringifyUpstreamError ''boom'' 500) @ doneEvent)) \<le> MAX_BODY_SIZE"
    unfolding error_stream_bytes by (simp add: MAX_BODY_SIZE_def)
  have dec: "utf8Decode ''boom'' = ''boom''" by (simp add: char_eval)
  note p = proxy_stream_error
    [of exampleHash streamBody "firstEnv upstream500" freshProxy, OF fresh_miss fresh_idle h3]
  have stored: "completed (dedup ?st1) (exampleHash streamBody) = Some ?c"
    using p(2) len by (simp add: Let_def dec env_fields fresh_fields)
  have calls: "upstreamCalls ?st1 = 1" using p(4) by (simp add: fresh_fields)
  have ttl: "ttlMs (dedup ?st1) = 30000" using p(5) by (simp add: fresh_fields)
  have "tCheck (retryEnv upstreamSse) - completedAt ?c \<le> ttlMs (dedup ?st1)"
    by (simp add: env_fields ttl)
  from proxy_replay [of ?st1 exampleHash streamBody ?c "retryEnv upstreamSse" True, OF stored this]
  show ?thesis using stored calls by (simp add: response_def example_keys)
qed

text \<open>
  Claim C2, amended. For a request that is forwarded (no cached entry and no in-flight
  entry for its key), \<open>proxyRequest\<close> leaves no in-flight entry for the key. When
  the upstream call throws, or the reading of its body throws, no completed entry is
  added (the cache is as \<open>getCached\<close> left it) and no later \<open>getCached\<close> for the key
  finds an entry. When the upstream call returns a response, of any status, the
  completed entry of the key is \<open>cachedEntry\<close>, provided that its body has at most
  \<open>MAX_BODY_SIZE\<close> bytes and that the pruning inside \<open>complete\<close> runs within the TTL.
  \<open>removeInflight\<close>, which the handler of a closed connection and the \<open>catch\<close> call,
  removes the in-flight entry and leaves the cache as it is.
\<close>

theorem C2_completed_only_on_response:
  assumes "fst (getCached (hash b) (tCheck env) (dedup st)) = None"
    and "inflight (dedup st) (hash b) = None"
  shows "inflight (dedup (snd (proxyRequest hash b s env st))) (hash b) = None
       \<and> (case upstream env of
            Threw msg isAbort \<Rightarrow>
              completed (dedup (snd (proxyRequest hash b s env st)))
                = completed (snd (getCached (hash b) (tCheck env) (dedup st)))
              \<and> (\<forall>t. fst (getCached (hash b) t (dedup (snd (proxyRequest hash b s env st)))) = None)
          | Responded ust uhs chunks (Some msg) \<Rightarrow>
              completed (dedup (snd (proxyRequest hash b s env st)))
                = completed (snd (getCached (hash b) (tCheck env) (dedup st)))
              \<and> (\<forall>t. fst (getCached (hash b) t (dedup (snd (proxyRequest hash b s env st)))) = None)
          | Responded ust uhs chunks None \<Rightarrow>
              completed (dedup (snd (proxyRequest hash b s env st))) (hash b) =
                (if length (body (cachedEntry s ust uhs chunks (tDone env))) \<le> MAX_BODY_SIZE
                    \<and> tPrune env - tDone env \<le> ttlMs (dedup st)
                 then Some (cachedEntry s ust uhs chunks (tDone env)) else None))
       \<and> completed (removeInflight k d) = completed d
       \<and> inflight (removeInflight k d) k = None"
proof (cases "upstreamFails (upstream env)")
  case True
  from proxy_forward_failure [of hash b env st s, OF assms True] True show ?thesis
    by (auto simp: upstreamFails_def removeInflight_fields split: Upstream.splits option.splits)
next
  case False
  then obtain ust uhs chunks where up: "upstream env = Responded ust uhs chunks None"
    by (auto simp: upstreamFails_def split: Upstream.splits)
  from proxy_response [of hash b env st ust uhs chunks s, OF assms up] up show ?thesis
    by (simp add: removeInflight_fields)
qed

text \<open>
  A streaming request whose upstream call throws: the error is passed on, no in-flight
  entry is left, no completed entry is added, and a retry finds nothing in the cache.
\<close>

theorem C2_completed_only_on_response_witness:
  "fst (getCached (exampleHash streamBody) (tCheck (firstEnv (Threw ''socket hang up'' False)))
          (dedup freshProxy)) = None
   \<and> inflight (dedup freshProxy) (exampleHash streamBody) = None
   \<and> fst (proxyRequest exampleHash streamBody True (firstEnv (Threw ''socket hang up'' False))
          freshProxy) =
       Failed ''socket hang up''
         (Some \<lparr> status = 200, headers = earlyHeaders, body = utf8 heartbeat \<rparr>)
   \<and> inflight (dedup (snd (proxyRequest exampleHash streamBody True
          (firstEnv (Threw ''socket hang up'' False)) freshProxy))) streamKey = None
   \<and> completed (dedup (snd (proxyRequest exampleHash streamBody True
          (firstEnv (Threw ''socket hang up'' False)) freshProxy))) streamKey = None
   \<and> fst (getCached streamKey 3000 (dedup (snd (proxyRequest exampleHash streamBody True
          (firstEnv (Threw ''socket hang up'' False)) freshProxy)))) = None"
proof -
  let ?env = "firstEnv (Threw ''socket hang up'' False)"
  have h1: "fst (getCached (exampleHash streamBody) (tCheck ?env) (dedup freshProxy)) = None"
    by (rule fresh_miss)
  have h2: "inflight (dedup freshProxy) (exampleHash streamBody) = None" by (rule fresh_idle)
  have out: "fst (proxyRequest exampleHash streamBody True ?env freshProxy) =
       Failed ''socket hang up''
         (Some \<lparr> status = 200, headers = earlyHeaders, body = utf8 heartbeat \<rparr>)"
    using proxy_forward [of exampleHash streamBody ?env freshProxy True, OF fresh_miss fresh_idle]
    by (simp add: forwardRequest_def Let_def env_fields)
  have c0: "completed (snd (getCached streamKey 1000 (dedup freshProxy))) streamKey = None"
    by (simp add: getCached_def freshProxy_def newDeduplicator_def)
  show ?thesis
    using C2_completed_only_on_response [of exampleHash streamBody ?env freshProxy True, OF h1 h2]
      h1 h2 out c0
    by (simp add: example_keys env_fields)
qed

text \<open>
  Claim C5, as stated: the second response has status, headers and body identical to
  the first. For a streaming request the first response has the three early headers
  and starts with a heartbeat frame; the replay from the cache has the content type
  only, and no heartbeat.
\<close>

theorem C5_counterexample:
  "fst (proxyRequest exampleHash streamBody True (firstEnv upstreamSse) freshProxy) =
     Sent \<lparr> status = 200, headers = earlyHeaders, body = utf8 heartbeat @ sseChunk \<rparr>
   \<and> fst (proxyRequest exampleHash streamBody True (retryEnv upstreamSse)
          (snd (proxyRequest exampleHash streamBody True (firstEnv upstreamSse) freshProxy))) =
     Sent \<lparr> status = 200, headers = [(''content-type'', ''text/event-stream'')], body = sseChunk \<rparr>
   \<and> fst (proxyRequest exampleHash streamBody True (retryEnv upstreamSse)
          (snd (proxyRequest exampleHash streamBody True (firstEnv upstreamSse) freshProxy)))
       \<noteq> fst (proxyRequest exampleHash streamBody True (firstEnv upstreamSse) freshProxy)"
proof -
  let ?st1 = "snd (proxyRequest exampleHash streamBody True (firstEnv upstreamSse) freshProxy)"
  let ?c = "\<lparr> status = 200, headers = [(''content-type'', ''text/event-stream'')],
            body = sseChunk, completedAt = 1500 \<rparr>"
  have h3: "upstream (firstEnv upstreamSse)
      = Responded 200 [(''content-type'', ''text/event-stream'')] [sseChunk] None"
    by (simp add: env_fields upstreamSse_def)
  have len: "length sseChunk \<le> MAX_BODY_SIZE" by (simp add: sseChunk_def MAX_BODY_SIZE_def)
  note p = proxy_stream_ok
    [of exampleHash streamBody "firstEnv upstreamSse" freshProxy, OF fresh_miss fresh_idle h3]
  have first: "fst (proxyRequest exampleHash streamBody True (firstEnv upstreamSse) freshProxy) =
     Sent \<lparr> status = 200, headers = earlyHeaders, body = utf8 heartbeat @ sseChunk \<rparr>"
    using p(1) by (simp add: env_fields)
  have stored: "completed (dedup ?st1) (exampleHash streamBody) = Some ?c"
    using p(2) len by (simp add: env_fields fresh_fields)
  have ttl: "ttlMs (dedup ?st1) = 30000" using p(4) by (simp add: fresh_fields)
  have "tCheck (retryEnv upstreamSse) - completedAt ?c \<le> ttlMs (dedup ?st1)"
    by (simp add: env_fields ttl)
  from proxy_replay [of ?st1 exampleHash streamBody ?c "retryEnv upstreamSse" True, OF stored this]
  have second: "fst (proxyRequest exampleHash streamBody True (retryEnv upstreamSse) ?st1) =
     Sent \<lparr> status = 200, headers = [(''content-type'', ''text/event-stream'')], body = sseChunk \<rparr>"
    by (simp add: response_def)
  show ?thesis unfolding first second by (simp add: earlyHeaders_def)
qed

text \<open>
  Claim C5, amended. For two requests with the same body that are not streaming,
  handled one after the other, the first forwarded (nothing cached and nothing in
  flight for its key) and answered by the upstream with a body of at most
  \<open>MAX_BODY_SIZE\<close> bytes, the second checked within the time to live after the
  completion of the first: the second response has the status, headers and body of
  the first, and one upstream call is made for the pair.
\<close>

theorem C5_replay_within_ttl:
  assumes "fst (getCached (hash b) (tCheck env1) (dedup st)) = None"
    and "inflight (dedup st) (hash b) = None"
    and "upstream env1 = Responded ust uhs chunks None"
    and "length (concat chunks) \<le> MAX_BODY_SIZE"
    and "tPrune env1 - tDone env1 \<le> ttlMs (dedup st)"
    and "tCheck env2 - tDone env1 \<le> ttlMs (dedup st)"
  shows "fst (proxyRequest hash b False env1 st) =
           Sent \<lparr> status = ust, headers = responseHeaders uhs, body = concat chunks \<rparr>
       \<and> fst (proxyRequest hash b False env2 (snd (proxyRequest hash b False env1 st)))
           = fst (proxyRequest hash b False env1 st)
       \<and> upstreamCalls (snd (proxyRequest hash b False env2 (snd (proxyRequest hash b False env1 st))))
           = upstreamCalls st + 1"
proof -
  let ?st1 = "snd (proxyRequest hash b False env1 st)"
  let ?c = "\<lparr> status = ust, headers = responseHeaders uhs, body = concat chunks,
              completedAt = tDone env1 \<rparr>"
  note p = proxy_plain [of hash b env1 st ust uhs chunks, OF assms(1,2,3)]
  have stored: "completed (dedup ?st1) (hash b) = Some ?c"
    using p(2) assms(4,5) by simp
  have "tCheck env2 - completedAt ?c \<le> ttlMs (dedup ?st1)" using p(5) assms(6) by simp
  from proxy_replay [of ?st1 hash b ?c env2 False, OF stored this]
  show ?thesis using p(1) p(4) by (simp add: response_def)
qed

text \<open>
  A request that is not streaming and its retry two seconds later.
\<close>

theorem C5_replay_within_ttl_witness:
  \<open>fst (getCached (exampleHash plainBody) (tCheck (firstEnv upstreamJson)) (dedup freshProxy)) = None
   \<and> inflight (dedup freshProxy) (exampleHash plainBody) = None
   \<and> length (concat [''{"choices":[]}'']) \<le> MAX_BODY_SIZE
   \<and> tPrune (firstEnv upstreamJson) - tDone (firstEnv upstreamJson) \<le> ttlMs (dedup freshProxy)
   \<and> tCheck (retryEnv upstreamJson) - tDone (firstEnv upstreamJson) \<le> ttlMs (dedup freshProxy)
   \<and> fst (proxyRequest exampleHash plainBody False (firstEnv upstreamJson) freshProxy) =
       Sent \<lparr> status = 200, headers = [(''content-type'', ''application/json'')],
              body = ''{"choices":[]}'' \<rparr>
   \<and> fst (proxyRequest exampleHash plainBody False (retryEnv upstreamJson)
          (snd (proxyRequest exampleHash plainBody False (firstEnv upstreamJson) freshProxy))) =
       Sent \<lparr> status = 200, headers = [(''content-type'', ''application/json'')],
              body = ''{"choices":[]}'' \<rparr>
   \<and> upstreamCalls (snd (proxyRequest exampleHash plainBody False (retryEnv upstreamJson)
          (snd (proxyRequest exampleHash plainBody False (firstEnv upstreamJson) freshProxy)))) = 1\<close>
proof -
  have h1: "fst (getCached (exampleHash plainBody) (tCheck (firstEnv upstreamJson)) (dedup freshProxy)) = None"
    by (rule fresh_miss)
  have h2: "inflight (dedup freshProxy) (exampleHash plainBody) = None" by (rule fresh_idle)
  have h3: \<open>upstream (firstEnv upstreamJson) =
      Responded 200 [(''content-type'', ''application/json''), (''connection'', ''keep-alive'')]
        [''{"choices":[]}''] None\<close>
    by (simp add: env_fields upstreamJson_def)
  have h4: \<open>length (concat [''{"choices":[]}'']) \<le> MAX_BODY_SIZE\<close>
    by (simp add: MAX_BODY_SIZE_def)
  have h5: "tPrune (firstEnv upstreamJson) - tDone (firstEnv upstreamJson) \<le> ttlMs (dedup freshProxy)"
    by (simp add: env_fields fresh_fields)
  have h6: "tCheck (retryEnv upstreamJson) - tDone (firstEnv upstreamJson) \<le> ttlMs (dedup freshProxy)"
    by (simp add: env_fields fresh_fields)
  have hs: "responseHeaders [(''content-type'', ''application/json''), (''connection'', ''keep-alive'')]
      = [(''content-type'', ''application/json'')]"
    by (simp add: responseHeaders_def objSet_def)
  show ?thesis
    using C5_replay_within_ttl
      [of exampleHash plainBody "firstEnv upstreamJson" freshProxy _ _ _ "retryEnv upstreamJson",
       OF h1 h2 h3 h4 h5 h6] h1 h2 h4 h5 h6
    by (simp add: hs fresh_fields)
qed

text \<open>
  Claim C9, as stated: the error event stream is stored as a completed entry. For an
  upstream error body of 1048576 bytes the stream is delivered with status 200, and
  nothing is stored: the stream is longer than \<open>MAX_BODY_SIZE\<close>.
\<close>

theorem C9_counterexample:
  "fst (proxyRequest exampleHash streamBody True (firstEnv upstreamHuge) freshProxy) =
     Sent \<lparr> status = 200, headers = earlyHeaders,
            body = utf8 heartbeat
              @ utf8 (dataEvent (stringifyUpstreamError (replicate 1048576 (CHR ''x'')) 500))
              @ utf8 doneEvent \<rparr>
   \<and> completed (dedup (snd (proxyRequest exampleHash streamBody True (firstEnv upstreamHuge)
        freshProxy))) streamKey = None"
proof -
  have h3: "upstream (firstEnv upstreamHuge)
      = Responded 500 [(''content-type'', ''text/plain'')] [replicate 1048576 (CHR ''x'')] None"
    by (simp add: env_fields upstreamHuge_def)
  have dec: "utf8Decode (replicate 1048576 (CHR ''x'')) = replicate 1048576 (CHR ''x'')"
    by (simp add: utf8Decode_ascii)
  have big: "\<not> length (utf8 (dataEvent (stringifyUpstreamError (replicate 1048576 (CHR ''x'')) 500)
                @ doneEvent)) \<le> MAX_BODY_SIZE"
    using length_errorEvent_gt [of "replicate 1048576 (CHR ''x'')" 500]
    by (simp add: MAX_BODY_SIZE_def del: length_append)
  note p = proxy_stream_error(1,2)
    [of exampleHash streamBody "firstEnv upstreamHuge" freshProxy, OF fresh_miss fresh_idle h3]
  show ?thesis using p big by (simp add: Let_def dec env_fields example_keys)
qed

text \<open>
  Claim C9, amended. A streaming request that is forwarded (nothing cached, nothing in
  flight for its key) and whose upstream call returns a status other than 200 is
  answered with status 200 and the headers of an event stream; the body is the
  heartbeat frames, the upstream error as one data event, and the terminator
  \<open>data: [DONE]\<close>; the event stream with the terminator is stored as a completed entry
  of status 200 when it has at most \<open>MAX_BODY_SIZE\<close> bytes (and has not expired when
  \<open>complete\<close> prunes), and is not stored otherwise.
\<close>

theorem C9_streaming_upstream_error:
  assumes "fst (getCached (hash b) (tCheck env) (dedup st)) = None"
    and "inflight (dedup st) (hash b) = None"
    and "upstream env = Responded ust uhs chunks None" and "ust \<noteq> 200"
  shows "(let errEvent = dataEvent (stringifyUpstreamError (utf8Decode (concat chunks)) ust);
              stored = \<lparr> status = 200, headers = [(''content-type'', ''text/event-stream'')],
                         body = utf8 (errEvent @ doneEvent), completedAt = tDone env \<rparr>
          in fst (proxyRequest hash b True env st) =
               Sent \<lparr> status = 200, headers = earlyHeaders,
                      body = concat (replicate (Suc (beats env)) (utf8 heartbeat))
                             @ utf8 errEvent @ utf8 doneEvent \<rparr>
           \<and> completed (dedup (snd (proxyRequest hash b True env st))) (hash b) =
               (if length (body stored) \<le> MAX_BODY_SIZE \<and> tPrune env - tDone env \<le> ttlMs (dedup st)
                then Some stored else None))"
  using proxy_stream_error(1,2) [of hash b env st ust uhs chunks, OF assms]
  by (simp add: Let_def)

text \<open>
  An upstream call that returns status 500 with the body "boom".
\<close>

theorem C9_streaming_upstream_error_witness:
  \<open>fst (getCached (exampleHash streamBody) (tCheck (firstEnv upstream500)) (dedup freshProxy)) = None
   \<and> inflight (dedup freshProxy) (exampleHash streamBody) = None
   \<and> upstream (firstEnv upstream500) = Responded 500 [(''content-type'', ''text/plain'')] [''boom''] None
   \<and> (500::nat) \<noteq> 200
   \<and> fst (proxyRequest exampleHash streamBody True (firstEnv upstream500) freshProxy) =
       Sent \<lparr> status = 200, headers = earlyHeaders,
              body = utf8 heartbeat
                @ utf8 (dataEvent (stringifyUpstreamError ''boom'' 500)) @ utf8 doneEvent \<rparr>
   \<and> completed (dedup (snd (proxyRequest exampleHash streamBody True (firstEnv upstream500) freshProxy)))
        streamKey =
       Some \<lparr> status = 200, headers = [(''content-type'', ''text/event-stream'')],
              body = utf8 (dataEvent (stringifyUpstreamError ''boom'' 500) @ doneEvent),
              completedAt = 1500 \<rparr>\<close>
proof -
  have h1: "fst (getCached (exampleHash streamBody) (tCheck (firstEnv upstream500)) (dedup freshProxy)) = None"
    by (rule fresh_miss)
  have h2: "inflight (dedup freshProxy) (exampleHash streamBody) = None" by (rule fresh_idle)
  have h3: "upstream (firstEnv upstream500) = Responded 500 [(''content-type'', ''text/plain'')] [''boom''] None"
    by (simp add: env_fields upstream500_def)
  have h4: "(500::nat) \<noteq> 200" by simp
  have len: "length (utf8 (dataEvent (stringifyUpstreamError ''boom'' 500) @ doneEvent)) \<le> MAX_BODY_SIZE"
    unfolding error_stream_bytes by (simp add: MAX_BODY_SIZE_def)
  have dec: "utf8Decode (concat [''boom'']) = ''boom''" by (simp add: char_eval)
  show ?thesis
    using C9_streaming_upstream_error
        [of exampleHash streamBody "firstEnv upstream500" freshProxy, OF h1 h2 h3 h4] h1 h2 h3 len
    by (simp add: Let_def dec env_fields fresh_fields example_keys)
qed

end
